theory Spec2Isabelle
  imports Main
begin

section \<open>Strings and numbers as the C++ library has them\<close>

text \<open>
  A \<open>std::string\<close> is a \<^typ>\<open>string\<close>, a \<open>vector<string>\<close> row of a spreadsheet
  (\<open>CCSVRow\<close>) is a list of strings.  \<open>std::to_string\<close> and the stream inserter
  \<open><<\<close> print an unsigned number in decimal.
\<close>

type_synonym CCSVRow = "string list"

definition digit_char :: "nat \<Rightarrow> char" where
  "digit_char n = ''0123456789'' ! n"

function to_string :: "nat \<Rightarrow> string" where
  "to_string n = (if n < 10 then [digit_char n] else to_string (n div 10) @ [digit_char (n mod 10)])"
  by pat_completeness auto
termination
  by (relation "measure id") auto

declare to_string.simps [simp del]

text \<open>The two magic characters of CSVRow.hpp.\<close>

definition QUOTE :: char where
  "QUOTE = CHR 0x22"

definition COMMA :: char where
  "COMMA = CHR '',''"

text \<open>\<open>s.find(pat) != string::npos\<close>: the pattern occurs somewhere in the string.\<close>

fun str_contains :: "string \<Rightarrow> string \<Rightarrow> bool" where
  "str_contains [] pat = (pat = [])"
| "str_contains (c # cs) pat = (take (length pat) (c # cs) = pat \<or> str_contains cs pat)"

section \<open>CSVRow.cpp: one row of a spreadsheet\<close>

text \<open>
  \<open>TrimColumn\<close>: \<open>start\<close> and \<open>end\<close> are the positions of the first and of the last
  character that is neither a space nor a tab; the result is \<open>src.substr(start, end+1)\<close>,
  that is \<open>end+1\<close> characters from \<open>start\<close> on, as far as there are that many.
\<close>

definition is_blank :: "char \<Rightarrow> bool" where
  "is_blank c = (c = CHR '' '' \<or> c = CHR 0x09)"

definition TrimColumn :: "string \<Rightarrow> string" where
  "TrimColumn src =
    (if list_all is_blank src then []
     else (let start = length (takeWhile is_blank src);
               end = length src - 1 - length (takeWhile is_blank (rev src))
           in take (end + 1) (drop start src)))"

definition RemoveEquals :: "string \<Rightarrow> string" where
  "RemoveEquals src =
    (case src of
       [] \<Rightarrow> src
     | c # dst \<Rightarrow>
         if c \<noteq> CHR ''='' then src
         else if length dst < 2 then dst
         else if hd dst \<noteq> QUOTE \<or> last dst \<noteq> QUOTE then dst
         else take (length dst - 2) (drop 1 dst))"

definition NeedsQuotes :: "string \<Rightarrow> bool" where
  "NeedsQuotes s = (QUOTE \<in> set s \<or> COMMA \<in> set s)"

text \<open>
  \<open>ParseField\<close>: the loop over the characters from the iterator on, with the two flags and
  the field collected so far.  It yields the field and the text from the iterator on: empty at
  the end of the line, and starting with the comma at which the loop broke off otherwise.
\<close>

fun ParseField_loop :: "bool \<Rightarrow> bool \<Rightarrow> string \<Rightarrow> string \<Rightarrow> string \<times> string" where
  "ParseField_loop fInQuotes fQuoteLast sResult [] = (sResult, [])"
| "ParseField_loop fInQuotes fQuoteLast sResult (c # cs) =
     (if c = COMMA \<and> \<not> fInQuotes then (sResult, c # cs)
      else if c = QUOTE then
        (if \<not> fInQuotes
           then ParseField_loop True False (if fQuoteLast then sResult @ [QUOTE] else sResult) cs
         else ParseField_loop False True sResult cs)
      else ParseField_loop fInQuotes False (sResult @ [c]) cs)"

definition ParseField :: "string \<Rightarrow> string \<times> string" where
  "ParseField s = ParseField_loop False False [] s"

text \<open>
  \<open>Parse\<close>: no column for the empty line; otherwise field after field, the iterator stepping
  over the comma after each field but the last.
\<close>

function Parse_loop :: "string \<Rightarrow> CCSVRow" where
  "Parse_loop s =
    (case ParseField s of
       (sColumn, rest) \<Rightarrow>
         TrimColumn (RemoveEquals (TrimColumn sColumn))
           # (case rest of [] \<Rightarrow> [] | c # rest' \<Rightarrow> Parse_loop rest'))"
  by pat_completeness auto
termination
proof (relation "measure length")
  show "wf (measure length)" by simp
next
  fix s sColumn rest c rest'
  assume a: "(sColumn, rest) = ParseField s" "rest = c # rest'"
  have le: "length (snd (ParseField_loop q l r t)) \<le> length t" for q l r t
    by (induction q l r t rule: ParseField_loop.induct) (auto intro: le_SucI)
  from a have "snd (ParseField_loop False False [] s) = c # rest'"
    unfolding ParseField_def by (metis snd_conv)
  with le [of False False "[]" s]
  show "(rest', s) \<in> measure length" by simp
qed

declare Parse_loop.simps [simp del]

definition Parse :: "string \<Rightarrow> CCSVRow" where
  "Parse s = (if s = [] then [] else Parse_loop s)"

text \<open>\<open>Verify\<close>: the same number of columns, and the same text in each.\<close>

definition Verify_row :: "CCSVRow \<Rightarrow> CCSVRow \<Rightarrow> bool" where
  "Verify_row this row = (length this = length row \<and> list_all (\<lambda>(a, b). a = b) (zip this row))"

definition Verify :: "CCSVRow \<Rightarrow> string \<Rightarrow> bool" where
  "Verify this s = Verify_row this (Parse s)"

definition FormatField :: "string \<Rightarrow> string" where
  "FormatField col =
    (if \<not> NeedsQuotes col then col
     else QUOTE # concat (map (\<lambda>c. if c = QUOTE then [c, QUOTE] else [c]) col) @ [QUOTE])"

text \<open>\<open>Format\<close>: a comma in front of every field but the first.\<close>

fun Format_from :: "bool \<Rightarrow> CCSVRow \<Rightarrow> string" where
  "Format_from first [] = []"
| "Format_from first (col # cols) =
     (if first then [] else [COMMA]) @ FormatField col @ Format_from False cols"

definition Format :: "CCSVRow \<Rightarrow> string" where
  "Format cols = Format_from True cols"

section \<open>Regular expressions of \<open><regex>\<close>\<close>

text \<open>
  The program checks its fields with \<open>std::tr1::regex\<close> patterns in the default
  (ECMAScript) grammar.  The patterns it uses are built from single characters and character
  classes, counted and starred repetitions of a class, options, capture groups and the two
  anchors; these are the constructors of \<open>rx\<close>.  Repetitions are greedy, and the matcher
  backtracks: \<open>rx_run\<close> lists, in the order the backtracking matcher tries them, the states in
  which a pattern can leave off.  A state is the number of characters before the current
  position, the rest of the subject and the captures made so far.  \<open>^\<close> holds at the start
  of the subject only and \<open>$\<close> at its end only, as the C++ standard has it when no
  multiline flag is given.
\<close>

datatype rx =
    Chr "char \<Rightarrow> bool"
  | Rep nat "nat option" "char \<Rightarrow> bool"
  | Opt rx
  | Seq rx rx
  | Grp nat rx
  | Bol
  | Eol
  | Eps

type_synonym captures = "(nat \<times> string) list"
type_synonym mstate = "nat \<times> string \<times> captures"

fun rx_run :: "rx \<Rightarrow> mstate \<Rightarrow> mstate list" where
  "rx_run (Chr P) (pos, s, caps) =
     (case s of [] \<Rightarrow> [] | c # cs \<Rightarrow> if P c then [(Suc pos, cs, caps)] else [])"
| "rx_run (Rep lo hi P) (pos, s, caps) =
     (let m = length (takeWhile P s);
          top = (case hi of None \<Rightarrow> m | Some h \<Rightarrow> min h m)
      in map (\<lambda>k. (pos + k, drop k s, caps)) (rev [lo ..< Suc top]))"
| "rx_run (Opt r) st = rx_run r st @ [st]"
| "rx_run (Seq r1 r2) st = concat (map (rx_run r2) (rx_run r1 st))"
| "rx_run (Grp i r) (pos, s, caps) =
     map (\<lambda>(pos', s', caps'). (pos', s', (i, take (pos' - pos) s) # caps')) (rx_run r (pos, s, caps))"
| "rx_run Bol (pos, s, caps) = (if pos = 0 then [(pos, s, caps)] else [])"
| "rx_run Eol (pos, s, caps) = (if s = [] then [(pos, s, caps)] else [])"
| "rx_run Eps st = [st]"

text \<open>A pattern written as the sequence of its items.\<close>

definition cat :: "rx list \<Rightarrow> rx" where
  "cat rs = foldr Seq rs Eps"

text \<open>
  \<open>regex_match\<close> wants the whole subject matched; \<open>regex_search\<close> tries every start
  position from the left and takes the first match there is.  Both yield the captures of the
  match found, \<open>None\<close> when there is none.
\<close>

definition regex_match :: "string \<Rightarrow> rx \<Rightarrow> captures option" where
  "regex_match s r =
    (case filter (\<lambda>(pos, rest, caps). rest = []) (rx_run r (0, s, [])) of
       [] \<Rightarrow> None | (pos, rest, caps) # _ \<Rightarrow> Some caps)"

definition regex_search :: "string \<Rightarrow> rx \<Rightarrow> captures option" where
  "regex_search s r =
    (case concat (map (\<lambda>i. rx_run r (i, drop i s, [])) [0 ..< Suc (length s)]) of
       [] \<Rightarrow> None | (pos, rest, caps) # _ \<Rightarrow> Some caps)"

text \<open>\<open>smatch::str(n)\<close>: the text of group \<open>n\<close>, empty when the group took no part.\<close>

definition str :: "captures \<Rightarrow> nat \<Rightarrow> string" where
  "str caps n = (case map_of caps n of None \<Rightarrow> [] | Some s \<Rightarrow> s)"

text \<open>
  What it means for a pattern to match, stated without the search order: \<open>rx_rel r pos u
  after caps caps'\<close> says that \<open>r\<close> can consume the text \<open>u\<close>, which starts \<open>pos\<close>
  characters into the subject and is followed by \<open>after\<close>, turning the captures \<open>caps\<close>
  into \<open>caps'\<close>.
\<close>

fun rx_rel :: "rx \<Rightarrow> nat \<Rightarrow> string \<Rightarrow> string \<Rightarrow> captures \<Rightarrow> captures \<Rightarrow> bool" where
  "rx_rel (Chr P) pos u after caps caps' = ((\<exists>c. u = [c] \<and> P c) \<and> caps' = caps)"
| "rx_rel (Rep lo hi P) pos u after caps caps' =
     (lo \<le> length u \<and> (case hi of None \<Rightarrow> True | Some h \<Rightarrow> length u \<le> h)
      \<and> list_all P u \<and> caps' = caps)"
| "rx_rel (Opt r) pos u after caps caps' =
     (rx_rel r pos u after caps caps' \<or> (u = [] \<and> caps' = caps))"
| "rx_rel (Seq r1 r2) pos u after caps caps' =
     (\<exists>u1 u2 caps1. u = u1 @ u2 \<and> rx_rel r1 pos u1 (u2 @ after) caps caps1
        \<and> rx_rel r2 (pos + length u1) u2 after caps1 caps')"
| "rx_rel (Grp i r) pos u after caps caps' =
     (\<exists>caps0. rx_rel r pos u after caps caps0 \<and> caps' = (i, u) # caps0)"
| "rx_rel Bol pos u after caps caps' = (u = [] \<and> pos = 0 \<and> caps' = caps)"
| "rx_rel Eol pos u after caps caps' = (u = [] \<and> after = [] \<and> caps' = caps)"
| "rx_rel Eps pos u after caps caps' = (u = [] \<and> caps' = caps)"

text \<open>Character classes in the "C" locale.\<close>

definition is_char :: "char \<Rightarrow> char \<Rightarrow> bool" where
  "is_char a c = (c = a)"

definition one_of :: "string \<Rightarrow> char \<Rightarrow> bool" where
  "one_of cs c = (c \<in> set cs)"

definition digit :: "char \<Rightarrow> bool" where
  "digit c = (c \<in> set ''0123456789'')"

definition xdigit :: "char \<Rightarrow> bool" where
  "xdigit c = (c \<in> set ''0123456789abcdefABCDEF'')"

definition upper :: "char \<Rightarrow> bool" where
  "upper c = (c \<in> set ''ABCDEFGHIJKLMNOPQRSTUVWXYZ'')"

definition lower :: "char \<Rightarrow> bool" where
  "lower c = (c \<in> set ''abcdefghijklmnopqrstuvwxyz'')"

definition alpha :: "char \<Rightarrow> bool" where
  "alpha c = (upper c \<or> lower c)"

definition alnum :: "char \<Rightarrow> bool" where
  "alnum c = (alpha c \<or> digit c)"

definition space :: "char \<Rightarrow> bool" where
  "space c = (c \<in> set [CHR '' '', CHR 0x09, CHR 0x0A, CHR 0x0B, CHR 0x0C, CHR 0x0D])"

text \<open>A literal text inside a pattern.\<close>

definition lit :: "string \<Rightarrow> rx" where
  "lit cs = cat (map (\<lambda>c. Chr (is_char c)) cs)"

text \<open>\<open>::tolower\<close> on one character, \<open>CDog::tolower\<close> on a string.\<close>

definition tolower_char :: "char \<Rightarrow> char" where
  "tolower_char c =
    (case map_of (zip ''ABCDEFGHIJKLMNOPQRSTUVWXYZ'' ''abcdefghijklmnopqrstuvwxyz'') c of
       None \<Rightarrow> c | Some l \<Rightarrow> l)"

definition tolower :: "string \<Rightarrow> string" where
  "tolower s = map tolower_char s"

text \<open>
  \<open>_stricmp(s.c_str(), t) == 0\<close>: the C strings (up to the first NUL) are equal when case is
  ignored.
\<close>

definition stricmp_eq :: "string \<Rightarrow> string \<Rightarrow> bool" where
  "stricmp_eq s t = (tolower (takeWhile (\<lambda>c. c \<noteq> CHR 0x00) s)
                     = tolower (takeWhile (\<lambda>c. c \<noteq> CHR 0x00) t))"

text \<open>
  \<open>std::stoi\<close> on a string of decimal digits (the only strings it is called on): the
  number, unless it does not fit an \<open>int\<close>; then the call throws \<open>std::out_of_range\<close>,
  which nothing in the program catches.
\<close>

definition digit_val :: "char \<Rightarrow> nat" where
  "digit_val c = (case map_of (zip ''0123456789'' [0, 1, 2, 3, 4, 5, 6, 7, 8, 9]) c of
                    None \<Rightarrow> 0 | Some v \<Rightarrow> v)"

definition decimal_value :: "string \<Rightarrow> nat" where
  "decimal_value s = foldl (\<lambda>n c. 10 * n + digit_val c) 0 s"

definition stoi :: "string \<Rightarrow> nat option" where
  "stoi s = (if decimal_value s \<le> 2147483647 then Some (decimal_value s) else None)"

datatype exn = out_of_range | assertion_failed

text \<open>
  \<open>printf\<close> with \<open>%0wd\<close> on a \<open>uint32_t\<close> argument: the 32 bits are read as an \<open>int\<close>
  and printed in decimal, padded with zeros to the width \<open>w\<close>.
\<close>

definition zero_pad :: "nat \<Rightarrow> string \<Rightarrow> string" where
  "zero_pad width s = replicate (width - length s) (CHR ''0'') @ s"

definition printf_0d :: "nat \<Rightarrow> nat \<Rightarrow> string" where
  "printf_0d width v =
    (if v < 2147483648 then zero_pad width (to_string v)
     else CHR ''-'' # zero_pad (width - 1) (to_string (4294967296 - v)))"

section \<open>Dog.hpp: one dog record\<close>

text \<open>
  The members of class \<open>CDog\<close>, in the order of their declaration.  The dog number is the
  only numeric member (\<open>uint32_t\<close>; no arithmetic is ever done on it, so it is a natural
  number here).
\<close>

record CDog =
  m_nNumber :: nat
  m_sName :: string
  m_sMicrochip :: string
  m_sAge :: string
  m_sSex :: string
  m_sNeuter :: string
  m_sStatus :: string
  m_sLocation :: string
  m_sHowAcquired :: string
  m_sDateAcquired :: string
  m_sPrimaryContactFName :: string
  m_sPrimaryContactLName :: string
  m_sSurrenderFName :: string
  m_sSurrenderLName :: string
  m_sSurrenderAddress :: string
  m_sSurrenderCity :: string
  m_sSurrenderState :: string
  m_sSurrenderZipCode :: string
  m_sOriginatingArea :: string
  m_sAdoptionFName :: string
  m_sAdoptionLName :: string
  m_sACFName :: string
  m_sACLName :: string
  m_sAdoptionAddress :: string
  m_sAdoptionCity :: string
  m_sAdoptionState :: string
  m_sAdoptionZip :: string
  m_sAdoptionArea :: string
  m_sAdoptioneMail :: string
  m_sAdoptionHomePhone :: string
  m_sAdoptionWorkPhone :: string
  m_sAdoptionCellPhone :: string
  m_sAdoptionStatus :: string
  m_sDispositionDate :: string
  m_fUpdateRequired :: bool

definition MAXDOG :: nat where
  "MAXDOG = 99999"

definition TOTAL_OLD_COLUMNS :: nat where
  "TOTAL_OLD_COLUMNS = 35"

definition TOTAL_NEW_COLUMNS :: nat where
  "TOTAL_NEW_COLUMNS = 36"

text \<open>\<open>CDog::Initialize\<close>: every field empty, the flag false.\<close>

definition Initialize :: "nat \<Rightarrow> CDog" where
  "Initialize nDog = \<lparr> m_nNumber = nDog, m_sName = [], m_sMicrochip = [], m_sAge = [],
     m_sSex = [], m_sNeuter = [], m_sStatus = [], m_sLocation = [], m_sHowAcquired = [],
     m_sDateAcquired = [], m_sPrimaryContactFName = [], m_sPrimaryContactLName = [],
     m_sSurrenderFName = [], m_sSurrenderLName = [], m_sSurrenderAddress = [],
     m_sSurrenderCity = [], m_sSurrenderState = [], m_sSurrenderZipCode = [],
     m_sOriginatingArea = [], m_sAdoptionFName = [], m_sAdoptionLName = [], m_sACFName = [],
     m_sACLName = [], m_sAdoptionAddress = [], m_sAdoptionCity = [], m_sAdoptionState = [],
     m_sAdoptionZip = [], m_sAdoptionArea = [], m_sAdoptioneMail = [],
     m_sAdoptionHomePhone = [], m_sAdoptionWorkPhone = [], m_sAdoptionCellPhone = [],
     m_sAdoptionStatus = [], m_sDispositionDate = [], m_fUpdateRequired = False \<rparr>"

definition HasChip :: "CDog \<Rightarrow> bool" where
  "HasChip d = (m_sMicrochip d \<noteq> [])"

definition IsEuthanized :: "CDog \<Rightarrow> bool" where
  "IsEuthanized d = str_contains (m_sStatus d) ''Euthanized''"

definition IsDied :: "CDog \<Rightarrow> bool" where
  "IsDied d = str_contains (m_sStatus d) ''Died''"

definition IsDead :: "CDog \<Rightarrow> bool" where
  "IsDead d = (IsEuthanized d \<or> IsDied d)"

definition IsReturned :: "CDog \<Rightarrow> bool" where
  "IsReturned d = str_contains (m_sStatus d) ''Returned''"

definition IsAdopted :: "CDog \<Rightarrow> bool" where
  "IsAdopted d = (m_sAdoptionFName d \<noteq> [] \<or> m_sAdoptionLName d \<noteq> [])"

definition GetResponsiblePerson :: "CDog \<Rightarrow> string" where
  "GetResponsiblePerson d =
    (if m_sPrimaryContactFName d \<noteq> [] \<or> m_sPrimaryContactLName d \<noteq> []
       then m_sPrimaryContactFName d @ '' '' @ m_sPrimaryContactLName d
     else if m_sACFName d \<noteq> [] \<or> m_sACLName d \<noteq> []
       then m_sACFName d @ '' '' @ m_sACLName d
     else if m_sLocation d \<noteq> [] then m_sLocation d
     else m_sOriginatingArea d)"

section \<open>The state the program works on\<close>

text \<open>
  Dog records are heap objects handled through \<open>CDog *\<close> pointers: both hash tables of a
  \<open>CDogs\<close> collection hold pointers to the same objects, and the comparison sets the update
  flag through them.  A pointer is an address, the heap maps every address to the record
  stored there.  Besides the heap the state holds the rows collected by the \<open>CBadDogs\<close>
  singleton (the error report) and the lines written to the console by \<open>MSGS\<close>.
\<close>

type_synonym addr = nat

record world =
  objs :: "addr \<Rightarrow> CDog"
  baddogs :: "CCSVRow list"
  console :: "string list"

text \<open>
  Modelled from the spec: the macro \<open>MSGS(text)\<close> of \<open>Messages.hpp\<close>, which is missing.  The
  specification's diagnostics sink takes plain informational messages without a subject.  The
  sources use \<open>MSGS\<close> for every progress line of the program
  (\<open>"Comparing ... old dogs with ... new dogs"\<close>, \<open>"Wrote ... bad dogs to ..."\<close>) and inside
  \<open>CBadDogs::AddError\<close>, and the code goes on after each: it prints its argument and returns.
\<close>

definition MSGS :: "string \<Rightarrow> world \<Rightarrow> world" where
  "MSGS msg w = w\<lparr>console := console w @ [msg]\<rparr>"

text \<open>\<open>CBadDogs::AddError\<close> (Messages.cpp): print the message, append a row of four columns.\<close>

definition AddError_row :: "CDog \<Rightarrow> string \<Rightarrow> CCSVRow" where
  "AddError_row d sMsg = [m_sName d, to_string (m_nNumber d), GetResponsiblePerson d, sMsg]"

definition AddError :: "CDog \<Rightarrow> string \<Rightarrow> world \<Rightarrow> world" where
  "AddError d sMsg w =
    (let w1 = MSGS (''dog '' @ m_sName d @ '' #'' @ to_string (m_nNumber d) @ '' contact ''
                      @ GetResponsiblePerson d @ '' - '' @ sMsg) w
     in w1\<lparr>baddogs := baddogs w1 @ [AddError_row d sMsg]\<rparr>)"

text \<open>
  Modelled from the spec: the macro \<open>BADDOGS(dog, message)\<close> of \<open>Messages.hpp\<close>, which is
  missing.  The specification's diagnostics sink accepts a subject record and a message and
  yields one row per anomaly: the macro hands both to \<open>CBadDogs::AddError\<close>.
\<close>

definition BADDOGS :: "CDog \<Rightarrow> string \<Rightarrow> world \<Rightarrow> world" where
  "BADDOGS d msg w = AddError d msg w"

definition SetUpdateRequired :: "addr \<Rightarrow> world \<Rightarrow> world" where
  "SetUpdateRequired p w = w\<lparr>objs := (objs w)(p := (objs w p)\<lparr>m_fUpdateRequired := True\<rparr>)\<rparr>"

section \<open>Dog.hpp, Dog.cpp: the collection of dogs\<close>

text \<open>
  \<open>CDogs\<close> keeps two \<open>unordered_map\<close>s of pointers, by dog number and by microchip.  Each
  is a list of key and pointer in the order the table's iterator visits them; lookup is
  \<open>map_of\<close>.  The C++ library leaves the iteration order open, so nothing below depends
  on it.
\<close>

record CDogs =
  m_mapNumber :: "(nat \<times> addr) list"
  m_mapChip :: "(string \<times> addr) list"

definition CDogs_empty :: CDogs where
  "CDogs_empty = \<lparr> m_mapNumber = [], m_mapChip = [] \<rparr>"

definition Find_number :: "CDogs \<Rightarrow> nat \<Rightarrow> addr option" where
  "Find_number D nDog = map_of (m_mapNumber D) nDog"

definition Find_chip :: "CDogs \<Rightarrow> string \<Rightarrow> addr option" where
  "Find_chip D sChip = map_of (m_mapChip D) sChip"

definition DogCount :: "CDogs \<Rightarrow> nat" where
  "DogCount D = length (m_mapNumber D)"

definition ChipCount :: "CDogs \<Rightarrow> nat" where
  "ChipCount D = length (m_mapChip D)"

text \<open>\<open>unordered_map::insert\<close> adds the pair unless the key is present already.\<close>

definition map_insert :: "'k \<Rightarrow> 'v \<Rightarrow> ('k \<times> 'v) list \<Rightarrow> ('k \<times> 'v) list" where
  "map_insert k v m = (if map_of m k = None then m @ [(k, v)] else m)"

text \<open>\<open>CDogs::Add (CDog *pDog)\<close>: the result is the function's return value and the collection.\<close>

definition Add :: "addr \<Rightarrow> CDogs \<Rightarrow> world \<Rightarrow> bool \<times> CDogs \<times> world" where
  "Add pDog D w =
    (let nDog = m_nNumber (objs w pDog); sChip = m_sMicrochip (objs w pDog) in
     if Find_number D nDog \<noteq> None
       then (False, D, BADDOGS (objs w pDog) ''already in collection'' w)
     else case (if sChip \<noteq> [] then Find_chip D sChip else None) of
       Some p \<Rightarrow> (False, D,
          BADDOGS (objs w pDog) (''and '' @ m_sName (objs w p) @ '' #''
             @ to_string (m_nNumber (objs w p)) @ '' have the same microchip'') w)
     | None \<Rightarrow>
         (let D1 = D\<lparr>m_mapNumber := map_insert nDog pDog (m_mapNumber D)\<rparr>;
              D2 = (if sChip \<noteq> [] then D1\<lparr>m_mapChip := map_insert sChip pDog (m_mapChip D1)\<rparr>
                    else D1)
          in (True, D2, w)))"

section \<open>MicrochipUpdate.cpp: comparing the old and the new report\<close>

text \<open>
  \<open>CompareDogs\<close> is a sequence of loops, each over the number table of one collection.
  Every loop body only uses the pointer \<open>it->second\<close>; the bodies follow, in the order of
  the source.  First loop: dogs of the old report that the new report lacks.
\<close>

definition loop1_body :: "CDogs \<Rightarrow> addr \<Rightarrow> world \<Rightarrow> world" where
  "loop1_body NewDogs pOldDog w =
    (if Find_number NewDogs (m_nNumber (objs w pOldDog)) = None then
       (if HasChip (objs w pOldDog)
          then BADDOGS (objs w pOldDog) (''has microchip '' @ m_sMicrochip (objs w pOldDog)
                 @ '' but is not found in new dog report'') w
        else w)
     else w)"

text \<open>Second loop: dogs acquired since the old report, microchips added or changed.\<close>

definition loop2_body :: "CDogs \<Rightarrow> addr \<Rightarrow> world \<Rightarrow> world" where
  "loop2_body OldDogs pNewDog w =
    (if IsDead (objs w pNewDog) \<or> IsReturned (objs w pNewDog) then w
     else case Find_number OldDogs (m_nNumber (objs w pNewDog)) of
       None \<Rightarrow>
         (let w1 = MSGS (''dog '' @ m_sName (objs w pNewDog) @ '' #''
                      @ to_string (m_nNumber (objs w pNewDog)) @ '' was acquired'') w
          in if m_sMicrochip (objs w1 pNewDog) = []
               then BADDOGS (objs w1 pNewDog) ''no microchip number recorded'' w1
             else SetUpdateRequired pNewDog w1)
     | Some pOldDog \<Rightarrow>
         if m_sMicrochip (objs w pOldDog) = [] \<and> m_sMicrochip (objs w pNewDog) \<noteq> [] then
           SetUpdateRequired pNewDog
             (MSGS (''dog '' @ m_sName (objs w pNewDog) @ '' #''
                @ to_string (m_nNumber (objs w pNewDog)) @ '' microchip was added'') w)
         else if m_sMicrochip (objs w pOldDog) \<noteq> m_sMicrochip (objs w pNewDog) then
           BADDOGS (objs w pNewDog) (''microchip number changed - was '' @ [QUOTE]
              @ m_sMicrochip (objs w pOldDog) @ [QUOTE] @ '' is '' @ [QUOTE]
              @ m_sMicrochip (objs w pNewDog) @ [QUOTE]) w
         else w)"

text \<open>Third loop: status "Adopted" without an adopting party.\<close>

definition loop3_body :: "addr \<Rightarrow> world \<Rightarrow> world" where
  "loop3_body pNewDog w =
    (if m_sStatus (objs w pNewDog) = ''Adopted'' then
       (if m_sAdoptionFName (objs w pNewDog) = [] \<and> m_sAdoptionLName (objs w pNewDog) = []
          then BADDOGS (objs w pNewDog)
                 (m_sStatus (objs w pNewDog) @ '' but no adopting party is recorded'') w
        else w)
     else w)"

text \<open>Fourth loop: an adopting party but a status other than adopted.\<close>

definition loop4_body :: "addr \<Rightarrow> world \<Rightarrow> world" where
  "loop4_body pNewDog w =
    (if m_sAdoptionFName (objs w pNewDog) \<noteq> [] \<or> m_sAdoptionLName (objs w pNewDog) \<noteq> [] then
       (if m_sStatus (objs w pNewDog) \<noteq> ''Adopted''
            \<and> m_sStatus (objs w pNewDog) \<noteq> ''Adoption Pending'' then
          (if IsDead (objs w pNewDog) \<or> IsReturned (objs w pNewDog) then w
           else BADDOGS (objs w pNewDog)
                  ('' adopting party is recorded but status is '' @ m_sStatus (objs w pNewDog)) w)
        else w)
     else w)"

text \<open>Fifth loop: a disposition date while the status is still Evaluation or Available.\<close>

definition loop5_body :: "addr \<Rightarrow> world \<Rightarrow> world" where
  "loop5_body pNewDog w =
    (if m_sDispositionDate (objs w pNewDog) \<noteq> [] then
       (if m_sDispositionDate (objs w pNewDog) = ''0000-00-00'' then w
        else if m_sStatus (objs w pNewDog) = ''Evaluation''
                 \<or> m_sStatus (objs w pNewDog) = ''Available''
          then BADDOGS (objs w pNewDog) (''disposition date is ''
                 @ m_sDispositionDate (objs w pNewDog) @ '' but status is ''
                 @ m_sStatus (objs w pNewDog)) w
        else w)
     else w)"

text \<open>Sixth loop: dogs adopted since the old report, and a change of the adopting family.\<close>

definition loop6_body :: "CDogs \<Rightarrow> addr \<Rightarrow> world \<Rightarrow> world" where
  "loop6_body OldDogs pNewDog w =
    (let pOldDog = Find_number OldDogs (m_nNumber (objs w pNewDog)) in
     if IsDead (objs w pNewDog) \<or> IsReturned (objs w pNewDog) then w
     else if \<not> IsAdopted (objs w pNewDog) then w
     else case (case pOldDog of None \<Rightarrow> None
                | Some q \<Rightarrow> if IsAdopted (objs w q) then Some q else None) of
       Some q \<Rightarrow>
         if m_sAdoptionFName (objs w q) \<noteq> m_sAdoptionFName (objs w pNewDog)
              \<or> m_sAdoptionLName (objs w q) \<noteq> m_sAdoptionLName (objs w pNewDog)
           then BADDOGS (objs w q) ''adopting family changed'' w
         else w
     | None \<Rightarrow>
         SetUpdateRequired pNewDog
           (MSGS (''dog '' @ m_sName (objs w pNewDog) @ '' #''
              @ to_string (m_nNumber (objs w pNewDog)) @ '' was adopted by ''
              @ m_sAdoptionFName (objs w pNewDog) @ '' '' @ m_sAdoptionLName (objs w pNewDog)) w))"

text \<open>Seventh loop: dogs that were adopted and are not any more.\<close>

definition loop7_body :: "CDogs \<Rightarrow> addr \<Rightarrow> world \<Rightarrow> world" where
  "loop7_body OldDogs pNewDog w =
    (case Find_number OldDogs (m_nNumber (objs w pNewDog)) of
       None \<Rightarrow> w
     | Some pOldDog \<Rightarrow>
         if \<not> IsAdopted (objs w pOldDog) then w
         else if \<not> IsAdopted (objs w pNewDog) then
           SetUpdateRequired pNewDog
             (MSGS (''dog '' @ m_sName (objs w pNewDog) @ '' #''
                @ to_string (m_nNumber (objs w pNewDog)) @ '' was returned to NGRR'') w)
         else w)"

text \<open>A loop over the number table of a collection runs its body on every pointer in turn.\<close>

definition for_dogs :: "CDogs \<Rightarrow> (addr \<Rightarrow> world \<Rightarrow> world) \<Rightarrow> world \<Rightarrow> world" where
  "for_dogs D body w = fold body (map snd (m_mapNumber D)) w"

definition CompareDogs :: "CDogs \<Rightarrow> CDogs \<Rightarrow> world \<Rightarrow> world" where
  "CompareDogs OldDogs NewDogs w =
    (let w0 = MSGS (''Comparing '' @ to_string (DogCount OldDogs) @ '' old dogs with ''
                      @ to_string (DogCount NewDogs) @ '' new dogs ...'') w;
         w1 = for_dogs OldDogs (loop1_body NewDogs) w0;
         w2 = for_dogs NewDogs (loop2_body OldDogs) w1;
         w3 = for_dogs NewDogs loop3_body w2;
         w4 = for_dogs NewDogs loop4_body w3;
         w5 = for_dogs NewDogs loop5_body w4;
         w6 = for_dogs NewDogs (loop6_body OldDogs) w5;
         w7 = for_dogs NewDogs (loop7_body OldDogs) w6
     in w7)"

text \<open>The rows a step appends to the error report when it runs in state \<open>w\<close>.\<close>

definition emitted :: "(world \<Rightarrow> world) \<Rightarrow> world \<Rightarrow> CCSVRow list" where
  "emitted step w = drop (length (baddogs w)) (baddogs (step w))"

section \<open>Dog.cpp: dates and the date of birth\<close>

definition reDate :: rx where
  "reDate = cat [Bol, Grp 1 (Rep 4 (Some 4) digit), Chr (is_char (CHR ''-'')),
     Grp 2 (Rep 2 (Some 2) digit), Chr (is_char (CHR ''-'')), Grp 3 (Rep 2 (Some 2) digit), Eol]"

text \<open>
  \<open>CDog::ParseDate\<close> yields day, month and year, \<open>None\<close> for the result false.  The three
  \<open>std::stoi\<close> calls read at most four digits and cannot throw.
\<close>

definition ParseDate :: "string \<Rightarrow> (nat \<times> nat \<times> nat) option" where
  "ParseDate sDate =
    (case regex_search sDate reDate of
       None \<Rightarrow> None
     | Some rmDate \<Rightarrow>
         (let nYear = decimal_value (str rmDate 1);
              nMonth = decimal_value (str rmDate 2);
              nDay = decimal_value (str rmDate 3)
          in if nMonth = 0 \<or> nMonth > 12 then None
             else if nDay = 0 \<or> nDay > 31 then None
             else if nYear < 1990 \<or> nYear > 2099 then None
             else Some (nDay, nMonth, nYear)))"

definition GetDateAcquired :: "CDog \<Rightarrow> (nat \<times> nat \<times> nat) option" where
  "GetDateAcquired d = ParseDate (m_sDateAcquired d)"

text \<open>\<open>CDog::FormatDate\<close>: \<open>"%02d/%02d/%04d"\<close> on month, day and year.\<close>

definition FormatDate :: "nat \<Rightarrow> nat \<Rightarrow> nat \<Rightarrow> string" where
  "FormatDate nDay nMonth nYear =
    printf_0d 2 nMonth @ ''/'' @ printf_0d 2 nDay @ ''/'' @ printf_0d 4 nYear"

definition reAge :: rx where
  "reAge = cat [Bol, Grp 1 (Rep 1 None digit), Chr space, lit ''years'', Chr space,
     Grp 2 (Rep 1 None digit), Chr space, lit ''months'', Eol]"

text \<open>An \<open>int32_t\<close> handed to a \<open>uint32_t\<close> parameter.\<close>

definition to_uint32 :: "int \<Rightarrow> nat" where
  "to_uint32 x = nat (x mod 4294967296)"

text \<open>
  \<open>CDog::ComputeBirthday\<close>: the result and the string \<open>sDOB\<close>.  Year and month are
  \<open>int32_t\<close> differences of values far below \<open>2^31\<close>, so they are the differences of the
  integers.
\<close>

definition ComputeBirthday :: "CDog \<Rightarrow> exn + (bool \<times> string)" where
  "ComputeBirthday d =
    (if m_sDateAcquired d = [] \<or> m_sAge d = [] then Inr (False, [])
     else case regex_search (tolower (m_sAge d)) reAge of
       None \<Rightarrow> Inr (False, [])
     | Some rmAge \<Rightarrow>
        (case stoi (str rmAge 1) of
           None \<Rightarrow> Inl out_of_range
         | Some nAgeYears \<Rightarrow>
            (case stoi (str rmAge 2) of
               None \<Rightarrow> Inl out_of_range
             | Some nAgeMonths \<Rightarrow>
                 if nAgeMonths > 12 \<or> nAgeYears > 20 then Inr (False, [])
                 else case GetDateAcquired d of
                   None \<Rightarrow> Inr (False, [])
                 | Some (nDayAcquired, nMonthAcquired, nYearAcquired) \<Rightarrow>
                     (let nYear = int nYearAcquired - int nAgeYears;
                          nMonth = int nMonthAcquired - int nAgeMonths
                      in if nMonth < 1
                           then Inr (True, FormatDate nDayAcquired (to_uint32 (nMonth + 12))
                                             (to_uint32 (nYear - 1)))
                         else Inr (True, FormatDate nDayAcquired (to_uint32 nMonth)
                                             (to_uint32 nYear))))))"

definition WasAcquiredAfter :: "addr \<Rightarrow> nat \<Rightarrow> world \<Rightarrow> bool \<times> world" where
  "WasAcquiredAfter p nYear w =
    (case GetDateAcquired (objs w p) of
       None \<Rightarrow> (True, BADDOGS (objs w p) ''no acquisition date recorded'' w)
     | Some (nDayAcquired, nMonthAcquired, nYearAcquired) \<Rightarrow> (nYearAcquired \<ge> nYear, w))"

section \<open>Dog.cpp: the field validators\<close>

text \<open>
  A validator works on one string member of the record \<open>this\<close>.  It yields its result, the new
  value of the string and the new state; the wrappers further down store the string back into
  the record.
\<close>

definition phone_sep1 :: "char \<Rightarrow> bool" where
  "phone_sep1 c = (space c \<or> one_of ''-/*,.'' c)"

definition phone_sep2 :: "char \<Rightarrow> bool" where
  "phone_sep2 c = (space c \<or> one_of ''-=*,.'' c)"

definition rePhone :: rx where
  "rePhone = cat [Bol, Opt (Chr (is_char (CHR ''+''))), Opt (Chr (is_char (CHR ''1''))),
     Opt (Chr space), Opt (Chr (is_char (CHR ''(''))),
     Grp 1 (cat [Chr digit, Chr digit, Chr digit]), Opt (Chr (is_char (CHR '')''))),
     Rep 0 None phone_sep1, Grp 2 (cat [Chr digit, Chr digit, Chr digit]),
     Rep 0 None phone_sep2, Grp 3 (cat [Chr digit, Chr digit, Chr digit, Chr digit]), Eol]"

definition VerifyPhone :: "CDog \<Rightarrow> string \<Rightarrow> string \<Rightarrow> bool \<Rightarrow> world \<Rightarrow> bool \<times> string \<times> world" where
  "VerifyPhone this sWhich sPhone fQuiet w =
    (if sPhone = [] \<or> sPhone = ''none'' then (True, [], w)
     else case regex_search sPhone rePhone of
       None \<Rightarrow>
         (False, [],
          if \<not> fQuiet
            then BADDOGS this (''invalid '' @ sWhich @ '' phone '' @ [QUOTE] @ sPhone @ [QUOTE]) w
          else w)
     | Some rmPhone \<Rightarrow> (True, str rmPhone 1 @ str rmPhone 2 @ str rmPhone 3, w))"

definition reZip :: rx where
  "reZip = cat [Bol, Rep 5 (Some 5) digit,
     Opt (Grp 1 (cat [Chr (is_char (CHR ''-'')), Rep 4 (Some 4) digit])), Eol]"

definition VerifyZip :: "CDog \<Rightarrow> string \<Rightarrow> world \<Rightarrow> bool \<times> string \<times> world" where
  "VerifyZip this sZip w =
    (if sZip = [] then (False, sZip, BADDOGS this ''zip code cannot be blank'' w)
     else if regex_match sZip reZip \<noteq> None then (True, sZip, w)
     else (False, [], BADDOGS this (''invalid zip code '' @ [QUOTE] @ sZip @ [QUOTE]) w))"

definition email_local :: "char \<Rightarrow> bool" where
  "email_local c = (alnum c \<or> one_of ''_%+-.'' c)"

definition email_domain :: "char \<Rightarrow> bool" where
  "email_domain c = (alnum c \<or> one_of ''.-'' c)"

definition reeMail :: rx where
  "reeMail = cat [Bol, Rep 1 None email_local, Chr (is_char (CHR ''@'')), Rep 1 None email_domain,
     Chr (is_char (CHR ''.'')), Rep 2 None alpha, Eol]"

definition VerifyeMail :: "CDog \<Rightarrow> string \<Rightarrow> world \<Rightarrow> bool \<times> string \<times> world" where
  "VerifyeMail this seMail w =
    (if seMail = [] then (False, seMail, BADDOGS this ''email address cannot be blank'' w)
     else if regex_match seMail reeMail \<noteq> None then (True, seMail, w)
     else (False, [], BADDOGS this (''invalid email address '' @ [QUOTE] @ seMail @ [QUOTE]) w))"

definition sStates :: string where
  "sStates = ''|AL|AK|AS|AZ|AR|CA|CO|CT|DE|DC|FM|FL|GA|GU|HI|ID|IL|IN|IA|KS|KY|LA|ME|MH|MD|MA|MI|MN|MS|MO|MT|NE|NV|NH|NJ|NM|NY|NC|ND|MP|OH|OK|OR|PW|PA|PR|RI|SC|SD|TN|TX|UT|VT|VI|VA|WA|WV|WI|WY|''"

definition VerifyState :: "CDog \<Rightarrow> string \<Rightarrow> world \<Rightarrow> bool \<times> string \<times> world" where
  "VerifyState this sState w =
    (if sState = [] then (True, ''CA'', w)
     else if length sState = 2 \<and> str_contains sStates sState then (True, sState, w)
     else (False, [], BADDOGS this (''invalid state '' @ [QUOTE] @ sState @ [QUOTE]) w))"

text \<open>Storing a changed record back through the pointer.\<close>

definition put :: "addr \<Rightarrow> CDog \<Rightarrow> world \<Rightarrow> world" where
  "put p d w = w\<lparr>objs := (objs w)(p := d)\<rparr>"

definition VerifyHomePhone :: "addr \<Rightarrow> bool \<Rightarrow> world \<Rightarrow> bool \<times> world" where
  "VerifyHomePhone p fQuiet w =
    (case VerifyPhone (objs w p) ''home'' (m_sAdoptionHomePhone (objs w p)) fQuiet w of
       (ok, s, w') \<Rightarrow> (ok, put p ((objs w' p)\<lparr>m_sAdoptionHomePhone := s\<rparr>) w'))"

definition VerifyCellPhone :: "addr \<Rightarrow> bool \<Rightarrow> world \<Rightarrow> bool \<times> world" where
  "VerifyCellPhone p fQuiet w =
    (case VerifyPhone (objs w p) ''cell'' (m_sAdoptionCellPhone (objs w p)) fQuiet w of
       (ok, s, w') \<Rightarrow> (ok, put p ((objs w' p)\<lparr>m_sAdoptionCellPhone := s\<rparr>) w'))"

definition VerifyWorkPhone :: "addr \<Rightarrow> bool \<Rightarrow> world \<Rightarrow> bool \<times> world" where
  "VerifyWorkPhone p fQuiet w =
    (case VerifyPhone (objs w p) ''work'' (m_sAdoptionWorkPhone (objs w p)) fQuiet w of
       (ok, s, w') \<Rightarrow> (ok, put p ((objs w' p)\<lparr>m_sAdoptionWorkPhone := s\<rparr>) w'))"

definition VerifyAdoptionZip :: "addr \<Rightarrow> world \<Rightarrow> bool \<times> world" where
  "VerifyAdoptionZip p w =
    (case VerifyZip (objs w p) (m_sAdoptionZip (objs w p)) w of
       (ok, s, w') \<Rightarrow> (ok, put p ((objs w' p)\<lparr>m_sAdoptionZip := s\<rparr>) w'))"

definition VerifyAdoptioneMail :: "addr \<Rightarrow> world \<Rightarrow> bool \<times> world" where
  "VerifyAdoptioneMail p w =
    (case VerifyeMail (objs w p) (m_sAdoptioneMail (objs w p)) w of
       (ok, s, w') \<Rightarrow> (ok, put p ((objs w' p)\<lparr>m_sAdoptioneMail := s\<rparr>) w'))"

definition VerifyAdoptionState :: "addr \<Rightarrow> world \<Rightarrow> bool \<times> world" where
  "VerifyAdoptionState p w =
    (case VerifyState (objs w p) (m_sAdoptionState (objs w p)) w of
       (ok, s, w') \<Rightarrow> (ok, put p ((objs w' p)\<lparr>m_sAdoptionState := s\<rparr>) w'))"

definition VerifySex :: "addr \<Rightarrow> world \<Rightarrow> bool \<times> world" where
  "VerifySex p w =
    (let s = tolower (m_sSex (objs w p)) in
     if s = ''female'' \<or> s = ''male'' then (True, w)
     else (let w1 = BADDOGS (objs w p) (''invalid sex '' @ [QUOTE] @ m_sSex (objs w p) @ [QUOTE]) w
           in (False, put p ((objs w1 p)\<lparr>m_sSex := ''Male''\<rparr>) w1)))"

definition VerifySpayNeuter :: "addr \<Rightarrow> world \<Rightarrow> bool \<times> world" where
  "VerifySpayNeuter p w =
    (let s = tolower (m_sNeuter (objs w p)) in
     if s = ''yes'' \<or> s = ''no'' then (True, w)
     else (let w1 = BADDOGS (objs w p)
                      (''invalid spay/neuter '' @ [QUOTE] @ m_sNeuter (objs w p) @ [QUOTE]) w
           in (False, put p ((objs w1 p)\<lparr>m_sNeuter := ''Yes''\<rparr>) w1)))"

text \<open>\<open>CDog::VerifyAll\<close>; the exception of \<open>ComputeBirthday\<close> passes through.\<close>

definition VerifyAll :: "addr \<Rightarrow> world \<Rightarrow> exn + (bool \<times> world)" where
  "VerifyAll p w =
    (case VerifySex p w of (ok1, w1) \<Rightarrow>
     case VerifySpayNeuter p w1 of (ok2, w2) \<Rightarrow>
     case ComputeBirthday (objs w2 p) of
       Inl e \<Rightarrow> Inl e
     | Inr (okDOB, sDOB) \<Rightarrow>
        (let fOK = (if okDOB then ok1 \<and> ok2 else False);
             w3 = (if okDOB then w2 else BADDOGS (objs w2 p) ''has no valid DOB'' w2)
         in if m_sAdoptionFName (objs w3 p) \<noteq> [] \<or> m_sAdoptionLName (objs w3 p) \<noteq> [] then
              (case VerifyAdoptioneMail p w3 of (ok4, w4) \<Rightarrow>
               case VerifyHomePhone p False w4 of (ok5, w5) \<Rightarrow>
               case VerifyCellPhone p True w5 of (ok6, w6) \<Rightarrow>
               case VerifyWorkPhone p True w6 of (ok7, w7) \<Rightarrow>
               case VerifyAdoptionZip p w7 of (ok8, w8) \<Rightarrow>
               case VerifyAdoptionState p w8 of (ok9, w9) \<Rightarrow>
                 Inr (fOK \<and> ok4 \<and> ok5 \<and> ok8 \<and> ok9, w9))
            else
              (let d = objs w3 p;
                   fBlank = (m_sAdoptioneMail d = [] \<and> m_sAdoptionFName d = []
                     \<and> m_sAdoptionLName d = [] \<and> m_sAdoptionCellPhone d = []
                     \<and> m_sAdoptionHomePhone d = [] \<and> m_sAdoptionWorkPhone d = []
                     \<and> m_sAdoptionAddress d = [] \<and> m_sAdoptionState d = []
                     \<and> m_sAdoptionZip d = [])
               in Inr (fOK \<and> fBlank,
                       if \<not> fBlank then BADDOGS d ''adoption information should be blank'' w3
                       else w3))))"

section \<open>Chip.cpp: the microchip number and the update records\<close>

definition reISO :: rx where
  "reISO = cat [Bol, Chr (is_char (CHR ''9'')), Rep 14 (Some 14) digit, Eol]"

definition rePumpkin :: rx where
  "rePumpkin = cat [Bol, lit ''202'', Rep 12 (Some 12) digit, Eol]"

definition reFDXA :: rx where
  "reFDXA = cat [Bol, Rep 10 (Some 10) xdigit, Eol]"

definition reOld :: rx where
  "reOld = cat [Bol, Grp 1 (Rep 3 (Some 3) digit), Opt (Chr (one_of '' *'')),
     Grp 2 (Rep 3 (Some 3) digit), Opt (Chr (one_of '' *'')), Grp 3 (Rep 3 (Some 3) digit), Eol]"

text \<open>The pattern \<open>reOld\<close> without its leading \<open>^\<close>.\<close>

definition reOld_tail :: "rx" where
  "reOld_tail = cat [Grp 1 (Rep 3 (Some 3) digit), Opt (Chr (one_of '' *'')),
     Grp 2 (Rep 3 (Some 3) digit), Opt (Chr (one_of '' *'')), Grp 3 (Rep 3 (Some 3) digit), Eol]"

text \<open>\<open>CChip::VerifyMicrochip\<close>: the result, the string \<open>sChip\<close> afterwards, the state.\<close>

definition VerifyMicrochip :: "string \<Rightarrow> bool \<Rightarrow> world \<Rightarrow> bool \<times> string \<times> world" where
  "VerifyMicrochip sChip fMessage w =
    (if sChip = [] then (False, sChip, MSGS ''microchip cannot be blank'' w)
     else if regex_match sChip reISO \<noteq> None then (True, sChip, w)
     else if regex_match sChip rePumpkin \<noteq> None then (True, sChip, w)
     else if regex_match sChip reFDXA \<noteq> None then (True, sChip, w)
     else case regex_search sChip reOld of
       Some rmChip \<Rightarrow> (True, str rmChip 1 @ str rmChip 2 @ str rmChip 3, w)
     | None \<Rightarrow>
         (False, sChip,
          if fMessage then MSGS (''invalid microchip '' @ [QUOTE] @ sChip @ [QUOTE]) w else w))"

text \<open>
  The class \<open>CChip\<close> is declared in \<open>Chip.hpp\<close>; \<open>Chip.cpp\<close> uses its members
  \<open>m_sMicrochip\<close> (here \<open>m_sMicrochip_chip\<close>, the other name being taken by the dog record)
  and \<open>m_pDog\<close>.
\<close>

record CChip =
  m_sMicrochip_chip :: string
  m_pDog :: addr

definition FromDog :: "addr \<Rightarrow> world \<Rightarrow> bool \<times> CChip \<times> world" where
  "FromDog pDog w =
    (case VerifyMicrochip (m_sMicrochip (objs w pDog)) False w of
       (ok, sChip, w1) \<Rightarrow>
         if \<not> ok then
           (False, \<lparr> m_sMicrochip_chip = sChip, m_pDog = pDog \<rparr>,
            MSGS (''dog '' @ m_sName (objs w1 pDog) @ '' #'' @ to_string (m_nNumber (objs w1 pDog))
                    @ '' has invalid microchip '' @ [QUOTE] @ sChip @ [QUOTE]) w1)
         else (True, \<lparr> m_sMicrochip_chip = sChip, m_pDog = pDog \<rparr>, w1))"

text \<open>\<open>CChips\<close>: the table of update records by microchip, and \<open>CChips::Add\<close>.\<close>

type_synonym CChips = "(string \<times> CChip) list"

definition CChips_Add :: "CChip \<Rightarrow> CChips \<Rightarrow> world \<Rightarrow> bool \<times> CChips \<times> world" where
  "CChips_Add chip Chips w =
    (if map_of Chips (m_sMicrochip_chip chip) \<noteq> None
       then (False, Chips,
             BADDOGS (objs w (m_pDog chip))
               (''duplicate microchip '' @ [QUOTE] @ m_sMicrochip_chip chip @ [QUOTE]) w)
     else (True, map_insert (m_sMicrochip_chip chip) chip Chips, w))"

text \<open>
  \<open>BuildUpdates\<close> (MicrochipUpdate.cpp) empties the table of update records and walks the
  number table of the collection.  The collection itself is only read.
\<close>

definition BuildUpdates_body :: "addr \<Rightarrow> CChips \<times> world \<Rightarrow> exn + (CChips \<times> world)" where
  "BuildUpdates_body pDog Cw =
    (case Cw of (Chips, w) \<Rightarrow>
     if \<not> m_fUpdateRequired (objs w pDog) then Inr (Chips, w)
     else if m_sMicrochip (objs w pDog) = []
       then Inr (Chips, BADDOGS (objs w pDog) ''requires update but has no microchip!'' w)
     else case VerifyAll pDog w of
       Inl e \<Rightarrow> Inl e
     | Inr (ok, w1) \<Rightarrow>
        (case FromDog pDog w1 of (made, chip, w2) \<Rightarrow>
           if made then (case CChips_Add chip Chips w2 of (added, Chips', w3) \<Rightarrow> Inr (Chips', w3))
           else Inr (Chips, w2)))"

fun BuildUpdates_loop :: "addr list \<Rightarrow> CChips \<times> world \<Rightarrow> exn + (CChips \<times> world)" where
  "BuildUpdates_loop [] Cw = Inr Cw"
| "BuildUpdates_loop (pDog # ps) Cw =
     (case BuildUpdates_body pDog Cw of Inl e \<Rightarrow> Inl e | Inr Cw' \<Rightarrow> BuildUpdates_loop ps Cw')"

definition BuildUpdates :: "CDogs \<Rightarrow> world \<Rightarrow> exn + (CChips \<times> world)" where
  "BuildUpdates Dogs w = BuildUpdates_loop (map snd (m_mapNumber Dogs)) ([], w)"

section \<open>The forms of a microchip number and of a phone number\<close>

text \<open>\<open>n\<close> decimal digits.\<close>

definition digits :: "nat \<Rightarrow> string \<Rightarrow> bool" where
  "digits n a = (length a = n \<and> list_all digit a)"

text \<open>Fifteen decimal digits, the first a 9; the digits 202 and twelve more; ten hexadecimal digits.\<close>

definition chip_iso :: "string \<Rightarrow> bool" where
  "chip_iso s = (digits 15 s \<and> take 1 s = ''9'')"

definition chip_202 :: "string \<Rightarrow> bool" where
  "chip_202 s = (digits 15 s \<and> take 3 s = ''202'')"

definition chip_hex :: "string \<Rightarrow> bool" where
  "chip_hex s = (length s = 10 \<and> list_all xdigit s)"

text \<open>
  The nine digit form as claim C4 words it: nine decimal digits, or three groups of three
  digits with a space or an asterisk between the groups.
\<close>

definition chip_nine_claimed :: "string \<Rightarrow> bool" where
  "chip_nine_claimed s =
    (digits 9 s \<or>
     (\<exists>a x b y c. s = a @ [x] @ b @ [y] @ c \<and> digits 3 a \<and> one_of '' *'' x \<and> digits 3 b
        \<and> one_of '' *'' y \<and> digits 3 c))"

text \<open>
  The nine digit form of the code: the groups \<open>a\<close>, \<open>b\<close> and \<open>c\<close> of three digits, where
  each of the two gaps is empty, a space or an asterisk, whatever the other gap is.
\<close>

definition chip_gap :: "string \<Rightarrow> bool" where
  "chip_gap x = (x = [] \<or> x = '' '' \<or> x = ''*'')"

definition chip_nine :: "string \<Rightarrow> string \<Rightarrow> string \<Rightarrow> string \<Rightarrow> bool" where
  "chip_nine s a b c =
    (\<exists>x y. s = a @ x @ b @ y @ c \<and> digits 3 a \<and> chip_gap x \<and> digits 3 b \<and> chip_gap y
       \<and> digits 3 c)"

text \<open>
  The phone number as claim C8 words it: an optional "+1", the area code of three digits with
  or without its parentheses, the prefix of three digits and the line number of four, with any
  number of the separators space, hyphen, slash, asterisk, comma, period and equals sign
  after the area code and after the prefix.
\<close>

definition phone_sep_claimed :: "char \<Rightarrow> bool" where
  "phone_sep_claimed c = one_of '' -/*,.='' c"

definition phone_claimed :: "string \<Rightarrow> bool" where
  "phone_claimed s =
    (\<exists>p A S1 B S2 C.
       (s = p @ A @ S1 @ B @ S2 @ C \<or> s = p @ ''('' @ A @ '')'' @ S1 @ B @ S2 @ C)
       \<and> (p = [] \<or> p = ''+1'') \<and> digits 3 A \<and> list_all phone_sep_claimed S1 \<and> digits 3 B
       \<and> list_all phone_sep_claimed S2 \<and> digits 4 C)"

text \<open>
  The phone number of the code, with the area code \<open>A\<close>, the prefix \<open>B\<close> and the line
  number \<open>C\<close>: each of "+", "1", one white space character and "(" may stand in front of
  the area code or not, ")" may follow it or not, the separators after the area code are
  those of \<open>phone_sep1\<close> and the separators after the prefix those of \<open>phone_sep2\<close>.
\<close>

definition phone_form :: "string \<Rightarrow> string \<Rightarrow> string \<Rightarrow> string \<Rightarrow> bool" where
  "phone_form s A B C =
    (\<exists>p1 p2 p3 p4 p5 S1 S2.
       s = p1 @ p2 @ p3 @ p4 @ A @ p5 @ S1 @ B @ S2 @ C
       \<and> (p1 = [] \<or> p1 = ''+'') \<and> (p2 = [] \<or> p2 = ''1'')
       \<and> (p3 = [] \<or> (\<exists>g. p3 = [g] \<and> space g)) \<and> (p4 = [] \<or> p4 = ''('')
       \<and> digits 3 A \<and> (p5 = [] \<or> p5 = '')'') \<and> list_all phone_sep1 S1 \<and> digits 3 B
       \<and> list_all phone_sep2 S2 \<and> digits 4 C)"

text \<open>The pattern \<open>rePhone\<close> without its leading \<open>^\<close>.\<close>

definition rePhone_tail :: rx where
  "rePhone_tail = cat [Opt (Chr (is_char (CHR ''+''))), Opt (Chr (is_char (CHR ''1''))),
     Opt (Chr space), Opt (Chr (is_char (CHR ''(''))),
     Grp 1 (cat [Chr digit, Chr digit, Chr digit]), Opt (Chr (is_char (CHR '')''))),
     Rep 0 None phone_sep1, Grp 2 (cat [Chr digit, Chr digit, Chr digit]),
     Rep 0 None phone_sep2, Grp 3 (cat [Chr digit, Chr digit, Chr digit, Chr digit]), Eol]"

section \<open>Notions used to state what a loop of the comparison does\<close>

text \<open>
  The loops only ever write the update flag of a record.  Two states hold the same data when
  their records agree up to that flag.
\<close>

definition unflag :: "CDog \<Rightarrow> CDog" where
  "unflag d = d\<lparr>m_fUpdateRequired := False\<rparr>"

definition same_data :: "world \<Rightarrow> world \<Rightarrow> bool" where
  "same_data w0 w = (\<forall>p. unflag (objs w0 p) = unflag (objs w p))"

text \<open>Whether the second loop sets the flag of the record at \<open>p\<close>, read off the state before the loop.\<close>

definition loop2_sets :: "CDogs \<Rightarrow> world \<Rightarrow> addr \<Rightarrow> bool" where
  "loop2_sets OldDogs w p =
    (\<not> IsDead (objs w p) \<and> \<not> IsReturned (objs w p) \<and> m_sMicrochip (objs w p) \<noteq> [] \<and>
     (case Find_number OldDogs (m_nNumber (objs w p)) of None \<Rightarrow> True
      | Some q \<Rightarrow> m_sMicrochip (objs w q) = []))"

text \<open>The same for the sixth loop.\<close>

definition loop6_sets :: "CDogs \<Rightarrow> world \<Rightarrow> addr \<Rightarrow> bool" where
  "loop6_sets OldDogs w p =
    (\<not> IsDead (objs w p) \<and> \<not> IsReturned (objs w p) \<and> IsAdopted (objs w p) \<and>
     (case Find_number OldDogs (m_nNumber (objs w p)) of None \<Rightarrow> True
      | Some q \<Rightarrow> \<not> IsAdopted (objs w q)))"

section \<open>A small pair of reports\<close>

text \<open>
  The old report has dog 100 without a microchip and dog 200 adopted by Jane Doe.  The new
  report has dog 100 with a microchip, the new dogs 101 (no microchip) and 102 (with one), and
  dog 200 adopted by John Roe.
\<close>

definition old_100 :: CDog where
  "old_100 = (Initialize 100)\<lparr>m_sName := ''Rex'', m_sStatus := ''Available''\<rparr>"

definition new_100 :: CDog where
  "new_100 = old_100\<lparr>m_sMicrochip := ''981023456789012''\<rparr>"

definition new_101 :: CDog where
  "new_101 = (Initialize 101)\<lparr>m_sName := ''Bear'', m_sStatus := ''Evaluation''\<rparr>"

definition new_102 :: CDog where
  "new_102 = (Initialize 102)\<lparr>m_sName := ''Max'', m_sMicrochip := ''0A1B2C3D4E'',
     m_sStatus := ''Evaluation''\<rparr>"

definition old_200 :: CDog where
  "old_200 = (Initialize 200)\<lparr>m_sName := ''Goldie'', m_sMicrochip := ''981020000000200'',
     m_sStatus := ''Adopted'', m_sAdoptionFName := ''Jane'', m_sAdoptionLName := ''Doe''\<rparr>"

definition new_200 :: CDog where
  "new_200 = old_200\<lparr>m_sAdoptionFName := ''John'', m_sAdoptionLName := ''Roe''\<rparr>"

definition two_reports :: world where
  "two_reports = \<lparr> objs = (\<lambda>a. Initialize 0)(10 := old_100, 11 := new_100, 12 := new_101,
       13 := new_102, 14 := old_200, 15 := new_200),
     baddogs = [], console = [] \<rparr>"

definition old_report :: CDogs where
  "old_report = \<lparr> m_mapNumber = [(100, 10), (200, 14)], m_mapChip = [(''981020000000200'', 14)] \<rparr>"

definition new_report :: CDogs where
  "new_report = \<lparr> m_mapNumber = [(100, 11), (101, 12), (102, 13), (200, 15)],
     m_mapChip = [(''981023456789012'', 11), (''0A1B2C3D4E'', 13), (''981020000000200'', 15)] \<rparr>"

section \<open>A sequence of insertions into a collection\<close>

text \<open>
  \<open>CDogs::ReadFile\<close> fills an empty collection by calling \<open>Add\<close> on one record after the
  other.  \<open>Add_all\<close> runs \<open>Add\<close> on a list of pointers, starting from the empty collection,
  and drops the return values.
\<close>

definition Add_step :: "addr \<Rightarrow> CDogs \<times> world \<Rightarrow> CDogs \<times> world" where
  "Add_step p Dw = (case Add p (fst Dw) (snd Dw) of (ok, D', w') \<Rightarrow> (D', w'))"

definition Add_all :: "addr list \<Rightarrow> world \<Rightarrow> CDogs \<times> world" where
  "Add_all ps w = fold Add_step ps (CDogs_empty, w)"

text \<open>The two tables agree with each other and with the records they point to.\<close>

definition CDogs_inv :: "(addr \<Rightarrow> CDog) \<Rightarrow> CDogs \<Rightarrow> bool" where
  "CDogs_inv h D =
    ((\<forall>n p. Find_number D n = Some p \<longrightarrow> m_nNumber (h p) = n) \<and>
     (\<forall>c p. Find_chip D c = Some p \<longrightarrow>
        m_sMicrochip (h p) = c \<and> c \<noteq> [] \<and> Find_number D (m_nNumber (h p)) = Some p) \<and>
     (\<forall>n p. Find_number D n = Some p \<and> m_sMicrochip (h p) \<noteq> [] \<longrightarrow>
        Find_chip D (m_sMicrochip (h p)) = Some p))"

section \<open>A record with an age and an acquisition date\<close>

definition dog_aged :: CDog where
  "dog_aged = (Initialize 7)\<lparr>m_sAge := ''3 years 2 months'', m_sDateAcquired := ''2020-05-15''\<rparr>"

section \<open>What the assembly of the update records leaves alone\<close>

text \<open>The two keys and the update flag of every record.\<close>

definition keys :: "world \<Rightarrow> addr \<Rightarrow> string \<times> nat \<times> bool" where
  "keys w q = (m_sMicrochip (objs w q), m_nNumber (objs w q), m_fUpdateRequired (objs w q))"

text \<open>Every update record is filed under its own microchip number.\<close>

definition CChips_inv :: "CChips \<Rightarrow> bool" where
  "CChips_inv Chips = (\<forall>k chip. map_of Chips k = Some chip \<longrightarrow> m_sMicrochip_chip chip = k)"

text \<open>
  A record that needs an update, with a microchip number in the grouped form, complete and
  without an adopter; a collection that holds just this record.
\<close>

definition dog_legacy :: CDog where
  "dog_legacy = dog_aged\<lparr>m_sMicrochip := ''123 456 789'', m_sSex := ''Male'',
     m_sNeuter := ''Yes'', m_fUpdateRequired := True\<rparr>"

definition legacy_world :: world where
  "legacy_world = \<lparr> objs = (\<lambda>a. dog_legacy), baddogs = [], console = [] \<rparr>"

definition legacy_dogs :: CDogs where
  "legacy_dogs = \<lparr> m_mapNumber = [(7, 20)], m_mapChip = [(''123 456 789'', 20)] \<rparr>"

section \<open>Fields that a row stores as they are\<close>

text \<open>
  What \<open>Parse\<close> stores for the text of a field, and the fields that this leaves as they are:
  the empty one, and those that neither begin with a space, a tab or an equals sign nor end with
  a space or a tab.  \<open>ends_field\<close> holds of the text that may follow a field in a line.
\<close>

definition plain :: "string \<Rightarrow> bool" where
  "plain f = (f = [] \<or> (\<not> is_blank (hd f) \<and> hd f \<noteq> CHR ''='' \<and> \<not> is_blank (last f)))"

definition stored :: "string \<Rightarrow> string" where
  "stored f = TrimColumn (RemoveEquals (TrimColumn f))"

definition ends_field :: "string \<Rightarrow> bool" where
  "ends_field rest = (rest = [] \<or> hd rest = COMMA)"

section \<open>CSVFile.cpp: reading a spreadsheet\<close>

text \<open>
  An input stream that was opened without error: the characters not yet read and the end-of-file
  bit.  \<open>std::getline\<close> takes the characters up to the next newline and drops the newline;
  when there is no newline left it takes what is there and sets the end-of-file bit.
\<close>

record istream =
  buf :: string
  eofbit :: bool

definition getline :: "istream \<Rightarrow> string \<times> istream" where
  "getline stm =
    (if CHR 0x0A \<in> set (buf stm)
     then (takeWhile (\<lambda>c. c \<noteq> CHR 0x0A) (buf stm),
           stm\<lparr>buf := tl (dropWhile (\<lambda>c. c \<noteq> CHR 0x0A) (buf stm))\<rparr>)
     else (buf stm, stm\<lparr>buf := [], eofbit := True\<rparr>))"

text \<open>
  \<open>CCSVRow::Read\<close> (the operator \<open>>>\<close>): at end of file it returns at once and the row keeps
  the columns it has; otherwise the next line is parsed into the row.
\<close>

definition CCSVRow_Read :: "istream \<Rightarrow> CCSVRow \<Rightarrow> CCSVRow \<times> istream" where
  "CCSVRow_Read stm cols =
    (if eofbit stm then (cols, stm)
     else (case getline stm of (s, stm') \<Rightarrow> (Parse s, stm')))"

text \<open>
  \<open>CCSVFile::Read (istream &, string)\<close>.  The spreadsheet is the vector of its rows.  The
  loop has no bound of its own, so its result is optional: \<open>None\<close> stands for a loop that
  never ends.  \<open>nLines\<close> is a \<open>uint32_t\<close>.
\<close>

type_synonym CCSVFile = "CCSVRow list"

partial_function (option) Read_loop ::
  "nat \<Rightarrow> istream \<Rightarrow> CCSVRow \<Rightarrow> nat \<Rightarrow> CCSVFile \<Rightarrow> world \<Rightarrow> (CCSVFile \<times> world) option" where
  "Read_loop nCols stm row nLines rows w =
    (case CCSVRow_Read stm row of
       (row', stm') \<Rightarrow>
         if eofbit stm' \<and> length row' = 0 then Some (rows, w)
         else (let nLines' = (nLines + 1) mod 2 ^ 32;
                   w' = (if nCols > 0 \<and> length row' \<noteq> nCols
                         then MSGS (''CCSVFile::Read() wrong number of columns in line ''
                                @ to_string nLines') w
                         else w)
               in Read_loop nCols stm' row' nLines' (rows @ [row']) w'))"

definition CCSVFile_Read ::
  "istream \<Rightarrow> string \<Rightarrow> CCSVFile \<Rightarrow> world \<Rightarrow> (CCSVFile \<times> world) option" where
  "CCSVFile_Read stm sHeader rows w =
    (if sHeader \<noteq> [] then
       (case CCSVRow_Read stm [] of
          (row, stm') \<Rightarrow>
            (let nCols = length row;
                 w' = (if \<not> Verify row sHeader
                       then MSGS ''CCSVFile::Read() header does not match'' w else w)
             in Read_loop nCols stm' row 1 rows w'))
     else Read_loop 0 stm [] 0 rows w)"

text \<open>
  The text of a file whose lines all end with a newline, and the messages that the loop of
  \<open>CCSVFile::Read\<close> writes for the lines of such a text.
\<close>

definition unlines :: "string list \<Rightarrow> string" where
  "unlines ls = concat (map (\<lambda>l. l @ [CHR 0x0A]) ls)"

definition one_line :: "string \<Rightarrow> bool" where
  "one_line l = (CHR 0x0A \<notin> set l)"

fun wrong_columns :: "nat \<Rightarrow> nat \<Rightarrow> string list \<Rightarrow> string list" where
  "wrong_columns nCols nLines [] = []"
| "wrong_columns nCols nLines (l # ls) =
    (if nCols > 0 \<and> length (Parse l) \<noteq> nCols
     then [''CCSVFile::Read() wrong number of columns in line ''
            @ to_string ((nLines + 1) mod 2 ^ 32)]
     else [])
    @ wrong_columns nCols ((nLines + 1) mod 2 ^ 32) ls"

section \<open>Dog.cpp: a record from a row of the report\<close>

text \<open>The header rows of the two layouts of the dog information report.\<close>

definition m_sOldColumnHeaders :: string where
  "m_sOldColumnHeaders = ''Dog Name, Dog Number, Micropchip number, Dog Age, Dog Sex, Dog Breed, Dog Neuter, Dog Status, Dog Location, How Acquired, Date Acquired, Primary Contact Fname, Primary Contact Lname, Surrender Fname, Surrender Lname, Surrender Address, Surrender City, Surrender State, Surrender Zip Code, Originating Area, Adoption Fname, Adoption Lname, AC Fname, AC Lname, Adoption Address, Adoption City, Adoption State, Adoption Zip Code, Adoption Area, Adoption Email, Adoption Home Phone, Adoption Work Phone, Adoption Cell Phone, Adoption Status, Adoption or Disposition Date''"

definition m_sNewColumnHeaders :: string where
  "m_sNewColumnHeaders = ''Dog Name, Dog Number, Micropchip number, Dog Age, Dog Sex, Dog Breed, Dog Neuter, Dog Status, Dog Location, How Acquired, Date Acquired, Primary Contact Fname, Primary Contact Lname, Surrender Fname, Surrender Lname, Surrender Address, Surrender City, Surrender State, Surrender Zip Code, Originating Area, County, Adoption Fname, Adoption Lname, AC Fname, AC Lname, Adoption Address, Adoption City, Adoption State, Adoption Zip Code, Adoption Area, Adoption Email, Adoption Home Phone, Adoption Work Phone, Adoption Cell Phone, Adoption Status, Adoption or Disposition Date''"

text \<open>
  \<open>CDog::FromRow\<close> goes through the row with the cursor \<open>nCol\<close>: a column is stored in a
  field of the record, or it is the dog number (kept in the local \<open>sDogNumber\<close>), or it is
  stepped over.  The columns follow in the order of the source; the county column is stepped
  over in the new layout only.
\<close>

datatype col_use = Field "string \<Rightarrow> CDog \<Rightarrow> CDog" | Number | Unused

fun columns_from :: "col_use list \<Rightarrow> nat \<Rightarrow> CCSVRow \<Rightarrow> CDog \<times> string \<Rightarrow> CDog \<times> string" where
  "columns_from [] nCol row s = s"
| "columns_from (Field f # cs) nCol row (d, sDogNumber) =
     columns_from cs (nCol + 1) row (f (row ! nCol) d, sDogNumber)"
| "columns_from (Number # cs) nCol row (d, sDogNumber) =
     columns_from cs (nCol + 1) row (d, row ! nCol)"
| "columns_from (Unused # cs) nCol row s = columns_from cs (nCol + 1) row s"

definition FromRow_columns :: "bool \<Rightarrow> col_use list" where
  "FromRow_columns fNew =
     [Field (\<lambda>v d. d\<lparr>m_sName := v\<rparr>),
      Number,
      Field (\<lambda>v d. d\<lparr>m_sMicrochip := v\<rparr>),
      Field (\<lambda>v d. d\<lparr>m_sAge := v\<rparr>),
      Field (\<lambda>v d. d\<lparr>m_sSex := v\<rparr>),
      Unused,
      Field (\<lambda>v d. d\<lparr>m_sNeuter := v\<rparr>),
      Field (\<lambda>v d. d\<lparr>m_sStatus := v\<rparr>),
      Field (\<lambda>v d. d\<lparr>m_sLocation := v\<rparr>),
      Field (\<lambda>v d. d\<lparr>m_sHowAcquired := v\<rparr>),
      Field (\<lambda>v d. d\<lparr>m_sDateAcquired := v\<rparr>),
      Field (\<lambda>v d. d\<lparr>m_sPrimaryContactFName := v\<rparr>),
      Field (\<lambda>v d. d\<lparr>m_sPrimaryContactLName := v\<rparr>),
      Field (\<lambda>v d. d\<lparr>m_sSurrenderFName := v\<rparr>),
      Field (\<lambda>v d. d\<lparr>m_sSurrenderLName := v\<rparr>),
      Field (\<lambda>v d. d\<lparr>m_sSurrenderAddress := v\<rparr>),
      Field (\<lambda>v d. d\<lparr>m_sSurrenderCity := v\<rparr>),
      Field (\<lambda>v d. d\<lparr>m_sSurrenderState := v\<rparr>),
      Field (\<lambda>v d. d\<lparr>m_sSurrenderZipCode := v\<rparr>),
      Field (\<lambda>v d. d\<lparr>m_sOriginatingArea := v\<rparr>)]
     @ (if fNew then [Unused] else [])
     @ [Field (\<lambda>v d. d\<lparr>m_sAdoptionFName := v\<rparr>),
      Field (\<lambda>v d. d\<lparr>m_sAdoptionLName := v\<rparr>),
      Field (\<lambda>v d. d\<lparr>m_sACFName := v\<rparr>),
      Field (\<lambda>v d. d\<lparr>m_sACLName := v\<rparr>),
      Field (\<lambda>v d. d\<lparr>m_sAdoptionAddress := v\<rparr>),
      Field (\<lambda>v d. d\<lparr>m_sAdoptionCity := v\<rparr>),
      Field (\<lambda>v d. d\<lparr>m_sAdoptionState := v\<rparr>),
      Field (\<lambda>v d. d\<lparr>m_sAdoptionZip := v\<rparr>),
      Field (\<lambda>v d. d\<lparr>m_sAdoptionArea := v\<rparr>),
      Field (\<lambda>v d. d\<lparr>m_sAdoptioneMail := v\<rparr>),
      Field (\<lambda>v d. d\<lparr>m_sAdoptionHomePhone := v\<rparr>),
      Field (\<lambda>v d. d\<lparr>m_sAdoptionWorkPhone := v\<rparr>),
      Field (\<lambda>v d. d\<lparr>m_sAdoptionCellPhone := v\<rparr>),
      Field (\<lambda>v d. d\<lparr>m_sAdoptionStatus := v\<rparr>),
      Field (\<lambda>v d. d\<lparr>m_sDispositionDate := v\<rparr>)]"

text \<open>
  The result of \<open>FromRow\<close>: the return value, the record and the state.  The assertion on
  the number of columns and the \<open>std::out_of_range\<close> of \<open>std::stoi\<close> end the call.
\<close>

definition reNumber :: rx where
  "reNumber = Rep 1 None digit"

definition FromRow :: "CCSVRow \<Rightarrow> bool \<Rightarrow> world \<Rightarrow> exn + (bool \<times> CDog \<times> world)" where
  "FromRow row fNew w =
    (if length row \<noteq> (if fNew then TOTAL_NEW_COLUMNS else TOTAL_OLD_COLUMNS)
     then Inl assertion_failed
     else case columns_from (FromRow_columns fNew) 0 row (Initialize 0, []) of
       (d0, sDogNumber) \<Rightarrow>
         (let d1 = (if stricmp_eq (m_sMicrochip d0) ''none'' then d0\<lparr>m_sMicrochip := []\<rparr> else d0)
          in if regex_match sDogNumber reNumber = None
               then Inr (False, d1, BADDOGS d1 (''invalid dog number '' @ sDogNumber) w)
             else case stoi sDogNumber of
               None \<Rightarrow> Inl out_of_range
             | Some n \<Rightarrow>
                 (let d2 = d1\<lparr>m_nNumber := n\<rparr>
                  in if n = 0 \<or> n > MAXDOG
                       then Inr (False, d2, BADDOGS d2 (''invalid dog number '' @ to_string n) w)
                     else Inr (True, d2, w))))"

text \<open>
  The position of a name in a header row, the parsed header row of a layout, and the cell of a
  row under the header of that name.
\<close>

definition column :: "CCSVRow \<Rightarrow> string \<Rightarrow> nat" where
  "column hdr name = length (takeWhile (\<lambda>h. h \<noteq> name) hdr)"

definition headers :: "bool \<Rightarrow> CCSVRow" where
  "headers fNew = Parse (if fNew then m_sNewColumnHeaders else m_sOldColumnHeaders)"

definition cell :: "CCSVRow \<Rightarrow> bool \<Rightarrow> string \<Rightarrow> string" where
  "cell row fNew name = row ! column (headers fNew) name"

text \<open>A row whose cells hold the names of their columns, with 17 as the dog number.\<close>

definition named_row :: "bool \<Rightarrow> CCSVRow" where
  "named_row fNew = (headers fNew)[1 := ''17'']"


section \<open>The comparison: frame lemmas\<close>

lemma same_data_refl: "same_data w w"
  by (simp add: same_data_def)

lemma unflag_eq_iff: "unflag d = unflag e \<longleftrightarrow> d = e\<lparr>m_fUpdateRequired := m_fUpdateRequired d\<rparr>"
  by (cases d, cases e) (auto simp: unflag_def)

lemma same_data_obj:
  "same_data v w \<Longrightarrow> objs v p = (objs w p)\<lparr>m_fUpdateRequired := m_fUpdateRequired (objs v p)\<rparr>"
  by (simp add: same_data_def unflag_eq_iff)

lemma same_data_fields:
  assumes "same_data v w"
  shows "m_nNumber (objs v p) = m_nNumber (objs w p)"
    and "m_sName (objs v p) = m_sName (objs w p)"
    and "m_sMicrochip (objs v p) = m_sMicrochip (objs w p)"
    and "m_sStatus (objs v p) = m_sStatus (objs w p)"
    and "m_sAdoptionFName (objs v p) = m_sAdoptionFName (objs w p)"
    and "m_sAdoptionLName (objs v p) = m_sAdoptionLName (objs w p)"
    and "IsDead (objs v p) = IsDead (objs w p)"
    and "IsReturned (objs v p) = IsReturned (objs w p)"
    and "IsAdopted (objs v p) = IsAdopted (objs w p)"
    and "AddError_row (objs v p) msg = AddError_row (objs w p) msg"
  by (subst same_data_obj [OF assms, of p],
      simp add: IsDead_def IsEuthanized_def IsDied_def IsReturned_def IsAdopted_def
        AddError_row_def GetResponsiblePerson_def)+

lemma same_data_MSGS: "same_data (MSGS m v) w = same_data v w"
  by (simp add: same_data_def MSGS_def)

lemma same_data_BADDOGS: "same_data (BADDOGS d m v) w = same_data v w"
  by (simp add: same_data_def BADDOGS_def AddError_def MSGS_def Let_def)

lemma same_data_SetUpdateRequired: "same_data (SetUpdateRequired p v) w = same_data v w"
  by (auto simp: same_data_def SetUpdateRequired_def unflag_def)

lemma state_simps:
  "baddogs (MSGS m w) = baddogs w"
  "baddogs (BADDOGS d msg w) = baddogs w @ [AddError_row d msg]"
  "baddogs (SetUpdateRequired p w) = baddogs w"
  "objs (MSGS m w) = objs w"
  "objs (BADDOGS d msg w) = objs w"
  "objs (SetUpdateRequired p w) q = (if q = p then (objs w p)\<lparr>m_fUpdateRequired := True\<rparr> else objs w q)"
  by (simp_all add: MSGS_def BADDOGS_def AddError_def SetUpdateRequired_def Let_def)

lemma fold_frame:
  assumes step: "\<And>q v. same_data v w \<Longrightarrow>
      same_data (body q v) w \<and> baddogs (body q v) = baddogs v @ rows q"
  assumes "same_data v w"
  shows "same_data (fold body ps v) w \<and>
         baddogs (fold body ps v) = baddogs v @ concat (map rows ps)"
  using assms(2)
proof (induction ps arbitrary: v)
  case Nil
  then show ?case by simp
next
  case (Cons q ps)
  from step [OF Cons.prems] have 1: "same_data (body q v) w"
    and 2: "baddogs (body q v) = baddogs v @ rows q" by simp_all
  from Cons.IH [OF 1] 2 show ?case by simp
qed

lemma fold_flag:
  assumes step: "\<And>q v. same_data v w \<Longrightarrow> same_data (body q v) w \<and>
      m_fUpdateRequired (objs (body q v) p) = (m_fUpdateRequired (objs v p) \<or> (q = p \<and> S))"
  assumes "same_data v w"
  shows "m_fUpdateRequired (objs (fold body ps v) p)
         = (m_fUpdateRequired (objs v p) \<or> (p \<in> set ps \<and> S))"
  using assms(2)
proof (induction ps arbitrary: v)
  case Nil
  then show ?case by simp
next
  case (Cons q ps)
  from step [OF Cons.prems] have 1: "same_data (body q v) w"
    and 2: "m_fUpdateRequired (objs (body q v) p) = (m_fUpdateRequired (objs v p) \<or> (q = p \<and> S))"
    by simp_all
  from Cons.IH [OF 1] 2 show ?case by auto
qed

lemma loop2_step_data:
  assumes "same_data v w"
  shows "same_data (loop2_body OldDogs q v) w"
  using assms
  by (simp add: loop2_body_def Let_def same_data_MSGS same_data_BADDOGS same_data_SetUpdateRequired
      split: option.splits)

lemma loop2_step_rows:
  assumes "same_data v w"
  shows "baddogs (loop2_body OldDogs q v) = baddogs v @ emitted (loop2_body OldDogs q) w"
  by (simp add: loop2_body_def emitted_def Let_def state_simps same_data_fields [OF assms]
      split: option.splits)

lemma loop2_step_flag:
  assumes "same_data v w"
  shows "m_fUpdateRequired (objs (loop2_body OldDogs q v) p)
         = (m_fUpdateRequired (objs v p) \<or> (q = p \<and> loop2_sets OldDogs w p))"
  by (auto simp add: loop2_body_def loop2_sets_def Let_def state_simps same_data_fields [OF assms]
      split: option.splits)

lemma loop2_rows:
  "baddogs (for_dogs NewDogs (loop2_body OldDogs) w)
   = baddogs w @ concat (map (\<lambda>q. emitted (loop2_body OldDogs q) w) (map snd (m_mapNumber NewDogs)))"
  unfolding for_dogs_def
  using fold_frame [where body = "loop2_body OldDogs" and w = w and v = w
      and rows = "\<lambda>q. emitted (loop2_body OldDogs q) w"]
  by (simp add: loop2_step_data loop2_step_rows same_data_refl)

lemma loop2_flag:
  "m_fUpdateRequired (objs (for_dogs NewDogs (loop2_body OldDogs) w) p)
   = (m_fUpdateRequired (objs w p) \<or> (p \<in> snd ` set (m_mapNumber NewDogs) \<and> loop2_sets OldDogs w p))"
  unfolding for_dogs_def
  using fold_flag [where body = "loop2_body OldDogs" and w = w and v = w and p = p
      and S = "loop2_sets OldDogs w p"]
  by (simp add: loop2_step_data loop2_step_flag same_data_refl)

lemma loop2_emitted_none:
  assumes "\<not> IsDead (objs w p)" "\<not> IsReturned (objs w p)"
    and "Find_number OldDogs (m_nNumber (objs w p)) = None" "m_sMicrochip (objs w p) = []"
  shows "emitted (loop2_body OldDogs p) w = [AddError_row (objs w p) ''no microchip number recorded'']"
  using assms by (simp add: loop2_body_def emitted_def Let_def state_simps)

lemma loop2_emitted_added:
  assumes "\<not> IsDead (objs w p)" "\<not> IsReturned (objs w p)"
    and "Find_number OldDogs (m_nNumber (objs w p)) = Some q"
    and "m_sMicrochip (objs w q) = []" "m_sMicrochip (objs w p) \<noteq> []"
  shows "emitted (loop2_body OldDogs p) w = []"
  using assms by (simp add: loop2_body_def emitted_def Let_def state_simps)

text \<open>
  Claim C1.  In the second loop of \<open>CompareDogs\<close>, for every record of the new report that is
  neither dead nor returned: the rows added to the error report are those of the single
  records; a record without an old record and without a microchip is reported
  ("no microchip number recorded") and its update flag is left as it was; a record without an
  old record but with a microchip gets the update flag; a record whose old record had no
  microchip while the new one has gets the update flag, and no row is written for it.
\<close>

theorem CompareDogs_acquired_or_chip_added:
  assumes "p \<in> snd ` set (m_mapNumber NewDogs)"
    and "\<not> IsDead (objs w p)" and "\<not> IsReturned (objs w p)"
  shows "let w' = for_dogs NewDogs (loop2_body OldDogs) w in
    baddogs w' = baddogs w @ concat (map (\<lambda>r. emitted (loop2_body OldDogs r) w)
                                        (map snd (m_mapNumber NewDogs))) \<and>
    (Find_number OldDogs (m_nNumber (objs w p)) = None \<and> m_sMicrochip (objs w p) = [] \<longrightarrow>
       emitted (loop2_body OldDogs p) w = [AddError_row (objs w p) ''no microchip number recorded''] \<and>
       AddError_row (objs w p) ''no microchip number recorded'' \<in> set (baddogs w') \<and>
       m_fUpdateRequired (objs w' p) = m_fUpdateRequired (objs w p)) \<and>
    (Find_number OldDogs (m_nNumber (objs w p)) = None \<and> m_sMicrochip (objs w p) \<noteq> [] \<longrightarrow>
       m_fUpdateRequired (objs w' p)) \<and>
    (\<forall>q. Find_number OldDogs (m_nNumber (objs w p)) = Some q \<and> m_sMicrochip (objs w q) = []
          \<and> m_sMicrochip (objs w p) \<noteq> [] \<longrightarrow>
       m_fUpdateRequired (objs w' p) \<and> emitted (loop2_body OldDogs p) w = [])"
proof -
  let ?w' = "for_dogs NewDogs (loop2_body OldDogs) w"
  have rows: "baddogs ?w' = baddogs w @ concat (map (\<lambda>r. emitted (loop2_body OldDogs r) w)
                                        (map snd (m_mapNumber NewDogs)))"
    by (rule loop2_rows)
  have a: "emitted (loop2_body OldDogs p) w = [AddError_row (objs w p) ''no microchip number recorded''] \<and>
       AddError_row (objs w p) ''no microchip number recorded'' \<in> set (baddogs ?w') \<and>
       m_fUpdateRequired (objs ?w' p) = m_fUpdateRequired (objs w p)"
    if h: "Find_number OldDogs (m_nNumber (objs w p)) = None" "m_sMicrochip (objs w p) = []"
  proof -
    have e: "emitted (loop2_body OldDogs p) w = [AddError_row (objs w p) ''no microchip number recorded'']"
      using assms h by (simp add: loop2_emitted_none)
    have "set (emitted (loop2_body OldDogs p) w) \<subseteq> set (baddogs ?w')"
      using assms(1) unfolding rows by auto
    with e have m: "AddError_row (objs w p) ''no microchip number recorded'' \<in> set (baddogs ?w')"
      by simp
    have "\<not> loop2_sets OldDogs w p" using h by (simp add: loop2_sets_def)
    then have "m_fUpdateRequired (objs ?w' p) = m_fUpdateRequired (objs w p)"
      by (simp add: loop2_flag)
    with e m show ?thesis by simp
  qed
  have b: "m_fUpdateRequired (objs ?w' p)"
    if h: "Find_number OldDogs (m_nNumber (objs w p)) = None" "m_sMicrochip (objs w p) \<noteq> []"
  proof -
    have "loop2_sets OldDogs w p" using assms h by (simp add: loop2_sets_def)
    then show ?thesis using assms(1) by (simp add: loop2_flag)
  qed
  have c: "m_fUpdateRequired (objs ?w' p) \<and> emitted (loop2_body OldDogs p) w = []"
    if h: "Find_number OldDogs (m_nNumber (objs w p)) = Some q" "m_sMicrochip (objs w q) = []"
       "m_sMicrochip (objs w p) \<noteq> []" for q
  proof -
    have "loop2_sets OldDogs w p" using assms h by (simp add: loop2_sets_def)
    then have "m_fUpdateRequired (objs ?w' p)" using assms(1) by (simp add: loop2_flag)
    moreover have "emitted (loop2_body OldDogs p) w = []"
      using assms h by (simp add: loop2_emitted_added)
    ultimately show ?thesis by simp
  qed
  show ?thesis
    unfolding Let_def using rows a b c by blast
qed

lemma two_reports_objs:
  "objs two_reports 10 = old_100" "objs two_reports 11 = new_100" "objs two_reports 12 = new_101"
  "objs two_reports 13 = new_102" "objs two_reports 14 = old_200" "objs two_reports 15 = new_200"
  by (simp_all add: two_reports_def)

lemma two_reports_alive:
  "\<not> IsDead new_100" "\<not> IsReturned new_100" "\<not> IsDead new_101" "\<not> IsReturned new_101"
  "\<not> IsDead new_102" "\<not> IsReturned new_102" "\<not> IsDead new_200" "\<not> IsReturned new_200"
  by (simp_all add: new_100_def old_100_def new_101_def new_102_def new_200_def old_200_def
      Initialize_def IsDead_def IsDied_def IsEuthanized_def IsReturned_def)

lemma two_reports_find:
  "Find_number old_report (m_nNumber new_100) = Some 10"
  "Find_number old_report (m_nNumber new_101) = None"
  "Find_number old_report (m_nNumber new_102) = None"
  "Find_number old_report (m_nNumber new_200) = Some 14"
  by (simp_all add: Find_number_def old_report_def new_100_def old_100_def new_101_def
      new_102_def new_200_def old_200_def Initialize_def)

lemma two_reports_chips:
  "m_sMicrochip old_100 = []" "m_sMicrochip new_100 \<noteq> []" "m_sMicrochip new_101 = []"
  "m_sMicrochip new_102 \<noteq> []"
  by (simp_all add: new_100_def old_100_def new_101_def new_102_def Initialize_def)

lemma new_report_pointers: "snd ` set (m_mapNumber new_report) = {11, 12, 13, 15}"
  by (simp add: new_report_def)

text \<open>
  The three cases of C1 on the small pair of reports: dog 100 (microchip added), dog 102
  (acquired with a microchip) and dog 101 (acquired without one).
\<close>

theorem CompareDogs_acquired_or_chip_added_witness:
  "m_fUpdateRequired (objs (for_dogs new_report (loop2_body old_report) two_reports) 11) \<and>
   emitted (loop2_body old_report 11) two_reports = [] \<and>
   m_fUpdateRequired (objs (for_dogs new_report (loop2_body old_report) two_reports) 13) \<and>
   \<not> m_fUpdateRequired (objs (for_dogs new_report (loop2_body old_report) two_reports) 12) \<and>
   AddError_row new_101 ''no microchip number recorded''
     \<in> set (baddogs (for_dogs new_report (loop2_body old_report) two_reports))"
proof -
  have f: "\<not> m_fUpdateRequired new_101" by (simp add: new_101_def Initialize_def)
  have p: "11 \<in> snd ` set (m_mapNumber new_report)" "12 \<in> snd ` set (m_mapNumber new_report)"
    "13 \<in> snd ` set (m_mapNumber new_report)"
    by (simp_all add: new_report_pointers)
  have a: "\<not> IsDead (objs two_reports 11)" "\<not> IsReturned (objs two_reports 11)"
    "\<not> IsDead (objs two_reports 12)" "\<not> IsReturned (objs two_reports 12)"
    "\<not> IsDead (objs two_reports 13)" "\<not> IsReturned (objs two_reports 13)"
    by (simp_all add: two_reports_objs two_reports_alive)
  note t11 = CompareDogs_acquired_or_chip_added [OF p(1) a(1) a(2), of old_report, unfolded Let_def]
  note t12 = CompareDogs_acquired_or_chip_added [OF p(2) a(3) a(4), of old_report, unfolded Let_def]
  note t13 = CompareDogs_acquired_or_chip_added [OF p(3) a(5) a(6), of old_report, unfolded Let_def]
  from t11 have "Find_number old_report (m_nNumber (objs two_reports 11)) = Some 10
      \<and> m_sMicrochip (objs two_reports 10) = [] \<and> m_sMicrochip (objs two_reports 11) \<noteq> [] \<longrightarrow>
      m_fUpdateRequired (objs (for_dogs new_report (loop2_body old_report) two_reports) 11) \<and>
      emitted (loop2_body old_report 11) two_reports = []"
    by blast
  then have 1: "m_fUpdateRequired (objs (for_dogs new_report (loop2_body old_report) two_reports) 11) \<and>
      emitted (loop2_body old_report 11) two_reports = []"
    by (simp add: two_reports_objs two_reports_find two_reports_chips)
  from t12 have "Find_number old_report (m_nNumber (objs two_reports 12)) = None
      \<and> m_sMicrochip (objs two_reports 12) = [] \<longrightarrow>
      AddError_row (objs two_reports 12) ''no microchip number recorded''
        \<in> set (baddogs (for_dogs new_report (loop2_body old_report) two_reports)) \<and>
      m_fUpdateRequired (objs (for_dogs new_report (loop2_body old_report) two_reports) 12)
        = m_fUpdateRequired (objs two_reports 12)"
    by blast
  then have 2: "\<not> m_fUpdateRequired (objs (for_dogs new_report (loop2_body old_report) two_reports) 12) \<and>
     AddError_row new_101 ''no microchip number recorded''
       \<in> set (baddogs (for_dogs new_report (loop2_body old_report) two_reports))"
    using f by (simp add: two_reports_objs two_reports_find two_reports_chips)
  from t13 have "Find_number old_report (m_nNumber (objs two_reports 13)) = None
      \<and> m_sMicrochip (objs two_reports 13) \<noteq> [] \<longrightarrow>
      m_fUpdateRequired (objs (for_dogs new_report (loop2_body old_report) two_reports) 13)"
    by blast
  then have 3: "m_fUpdateRequired (objs (for_dogs new_report (loop2_body old_report) two_reports) 13)"
    by (simp add: two_reports_objs two_reports_find two_reports_chips)
  from 1 2 3 show ?thesis by simp
qed

lemma loop6_step_data:
  assumes "same_data v w"
  shows "same_data (loop6_body OldDogs q v) w"
  using assms
  by (simp add: loop6_body_def Let_def same_data_MSGS same_data_BADDOGS same_data_SetUpdateRequired
      split: option.splits)

lemma loop6_step_rows:
  assumes "same_data v w"
  shows "baddogs (loop6_body OldDogs q v) = baddogs v @ emitted (loop6_body OldDogs q) w"
  by (simp add: loop6_body_def emitted_def Let_def state_simps same_data_fields [OF assms]
      split: option.splits)

lemma loop6_step_flag:
  assumes "same_data v w"
  shows "m_fUpdateRequired (objs (loop6_body OldDogs q v) p)
         = (m_fUpdateRequired (objs v p) \<or> (q = p \<and> loop6_sets OldDogs w p))"
  by (auto simp add: loop6_body_def loop6_sets_def Let_def state_simps same_data_fields [OF assms]
      split: option.splits)

lemma loop6_rows:
  "baddogs (for_dogs NewDogs (loop6_body OldDogs) w)
   = baddogs w @ concat (map (\<lambda>q. emitted (loop6_body OldDogs q) w) (map snd (m_mapNumber NewDogs)))"
  unfolding for_dogs_def
  using fold_frame [where body = "loop6_body OldDogs" and w = w and v = w
      and rows = "\<lambda>q. emitted (loop6_body OldDogs q) w"]
  by (simp add: loop6_step_data loop6_step_rows same_data_refl)

lemma loop6_flag:
  "m_fUpdateRequired (objs (for_dogs NewDogs (loop6_body OldDogs) w) p)
   = (m_fUpdateRequired (objs w p) \<or> (p \<in> snd ` set (m_mapNumber NewDogs) \<and> loop6_sets OldDogs w p))"
  unfolding for_dogs_def
  using fold_flag [where body = "loop6_body OldDogs" and w = w and v = w and p = p
      and S = "loop6_sets OldDogs w p"]
  by (simp add: loop6_step_data loop6_step_flag same_data_refl)

text \<open>
  Claim C2.  In the sixth loop of \<open>CompareDogs\<close>, a record of the new report that is adopted,
  not dead and not returned, whose old record exists, was adopted and names another adopter
  (first or last name), yields the row "adopting family changed" in the error report, and its
  update flag after the loop is what it was before the loop.
\<close>

theorem CompareDogs_adopting_family_changed:
  assumes "p \<in> snd ` set (m_mapNumber NewDogs)"
    and "IsAdopted (objs w p)" and "\<not> IsDead (objs w p)" and "\<not> IsReturned (objs w p)"
    and "Find_number OldDogs (m_nNumber (objs w p)) = Some q"
    and "IsAdopted (objs w q)"
    and "m_sAdoptionFName (objs w q) \<noteq> m_sAdoptionFName (objs w p)
         \<or> m_sAdoptionLName (objs w q) \<noteq> m_sAdoptionLName (objs w p)"
  shows "let w' = for_dogs NewDogs (loop6_body OldDogs) w in
    baddogs w' = baddogs w @ concat (map (\<lambda>r. emitted (loop6_body OldDogs r) w)
                                        (map snd (m_mapNumber NewDogs))) \<and>
    emitted (loop6_body OldDogs p) w = [AddError_row (objs w q) ''adopting family changed''] \<and>
    AddError_row (objs w q) ''adopting family changed'' \<in> set (baddogs w') \<and>
    m_fUpdateRequired (objs w' p) = m_fUpdateRequired (objs w p)"
proof -
  let ?w' = "for_dogs NewDogs (loop6_body OldDogs) w"
  have rows: "baddogs ?w' = baddogs w @ concat (map (\<lambda>r. emitted (loop6_body OldDogs r) w)
                                        (map snd (m_mapNumber NewDogs)))"
    by (rule loop6_rows)
  have e: "emitted (loop6_body OldDogs p) w = [AddError_row (objs w q) ''adopting family changed'']"
    using assms by (auto simp add: loop6_body_def emitted_def Let_def state_simps)
  have "set (emitted (loop6_body OldDogs p) w) \<subseteq> set (baddogs ?w')"
    using assms(1) unfolding rows by auto
  with e have m: "AddError_row (objs w q) ''adopting family changed'' \<in> set (baddogs ?w')"
    by simp
  have "\<not> loop6_sets OldDogs w p" using assms by (simp add: loop6_sets_def)
  then have "m_fUpdateRequired (objs ?w' p) = m_fUpdateRequired (objs w p)"
    by (simp add: loop6_flag)
  with rows e m show ?thesis unfolding Let_def by blast
qed

text \<open>C2 on the small pair of reports: dog 200 went from Jane Doe to John Roe.\<close>

theorem CompareDogs_adopting_family_changed_witness:
  "AddError_row old_200 ''adopting family changed''
     \<in> set (baddogs (for_dogs new_report (loop6_body old_report) two_reports)) \<and>
   \<not> m_fUpdateRequired (objs (for_dogs new_report (loop6_body old_report) two_reports) 15)"
proof -
  have f: "\<not> m_fUpdateRequired new_200" "IsAdopted new_200" "IsAdopted old_200"
    "m_sAdoptionFName old_200 \<noteq> m_sAdoptionFName new_200"
    by (simp_all add: new_200_def old_200_def Initialize_def IsAdopted_def)
  have h: "15 \<in> snd ` set (m_mapNumber new_report)" "IsAdopted (objs two_reports 15)"
    "\<not> IsDead (objs two_reports 15)" "\<not> IsReturned (objs two_reports 15)"
    "Find_number old_report (m_nNumber (objs two_reports 15)) = Some 14"
    "IsAdopted (objs two_reports 14)"
    "m_sAdoptionFName (objs two_reports 14) \<noteq> m_sAdoptionFName (objs two_reports 15)
       \<or> m_sAdoptionLName (objs two_reports 14) \<noteq> m_sAdoptionLName (objs two_reports 15)"
    using f by (simp_all add: new_report_pointers two_reports_objs two_reports_alive two_reports_find)
  note t = CompareDogs_adopting_family_changed [OF h, unfolded Let_def]
  from t have "AddError_row (objs two_reports 14) ''adopting family changed''
     \<in> set (baddogs (for_dogs new_report (loop6_body old_report) two_reports)) \<and>
     m_fUpdateRequired (objs (for_dogs new_report (loop6_body old_report) two_reports) 15)
       = m_fUpdateRequired (objs two_reports 15)"
    by blast
  then show ?thesis using f by (simp add: two_reports_objs)
qed

section \<open>The collection: both tables agree\<close>

lemma map_of_map_insert:
  "map_of (map_insert k v m) k' = (if k' = k \<and> map_of m k = None then Some v else map_of m k')"
  by (auto simp: map_insert_def map_add_def split: option.splits)

lemma CDogs_inv_empty: "CDogs_inv h CDogs_empty"
  by (simp add: CDogs_inv_def CDogs_empty_def Find_number_def Find_chip_def)

lemma Add_objs: "objs (snd (snd (Add p D w))) = objs w"
  by (simp add: Add_def Let_def state_simps split: option.splits)

lemma Add_inv:
  assumes "CDogs_inv (objs w) D"
  shows "CDogs_inv (objs w) (fst (snd (Add p D w)))"
proof (cases "Find_number D (m_nNumber (objs w p)) \<noteq> None
    \<or> (m_sMicrochip (objs w p) \<noteq> [] \<and> Find_chip D (m_sMicrochip (objs w p)) \<noteq> None)")
  case True
  then have "fst (snd (Add p D w)) = D"
    by (auto simp: Add_def Let_def split: option.splits)
  with assms show ?thesis by simp
next
  case False
  then have n: "Find_number D (m_nNumber (objs w p)) = None"
    and c: "m_sMicrochip (objs w p) \<noteq> [] \<Longrightarrow> Find_chip D (m_sMicrochip (objs w p)) = None"
    by auto
  from assms have i1: "\<And>m r. Find_number D m = Some r \<Longrightarrow> m_nNumber (objs w r) = m"
    and i2: "\<And>k r. Find_chip D k = Some r \<Longrightarrow> m_sMicrochip (objs w r) = k \<and> k \<noteq> []
                \<and> Find_number D (m_nNumber (objs w r)) = Some r"
    and i3: "\<And>m r. Find_number D m = Some r \<Longrightarrow> m_sMicrochip (objs w r) \<noteq> [] \<Longrightarrow>
                Find_chip D (m_sMicrochip (objs w r)) = Some r"
    unfolding CDogs_inv_def by blast+
  define D' where "D' = fst (snd (Add p D w))"
  have num: "Find_number D' m = (if m = m_nNumber (objs w p) then Some p else Find_number D m)" for m
    using n c unfolding D'_def
    by (cases "m_sMicrochip (objs w p) = []")
       (auto simp: Add_def Let_def Find_number_def Find_chip_def map_of_map_insert)
  have chip: "Find_chip D' k = (if k = m_sMicrochip (objs w p) \<and> k \<noteq> [] then Some p else Find_chip D k)" for k
    using n c unfolding D'_def
    by (cases "m_sMicrochip (objs w p) = []")
       (auto simp: Add_def Let_def Find_number_def Find_chip_def map_of_map_insert)
  have 1: "m_nNumber (objs w r) = m" if "Find_number D' m = Some r" for m r
    using that i1 by (auto simp: num split: if_splits)
  have 2: "m_sMicrochip (objs w r) = k \<and> k \<noteq> [] \<and> Find_number D' (m_nNumber (objs w r)) = Some r"
    if "Find_chip D' k = Some r" for k r
  proof (cases "k = m_sMicrochip (objs w p) \<and> k \<noteq> []")
    case True
    with that have "r = p" by (auto simp: chip)
    with True show ?thesis by (auto simp: num)
  next
    case False
    with that have "Find_chip D k = Some r" by (simp add: chip)
    from i2 [OF this] n show ?thesis by (auto simp: num)
  qed
  have 3: "Find_chip D' (m_sMicrochip (objs w r)) = Some r"
    if "Find_number D' m = Some r" "m_sMicrochip (objs w r) \<noteq> []" for m r
  proof (cases "m = m_nNumber (objs w p)")
    case True
    with that have "r = p" by (simp add: num)
    with that show ?thesis by (simp add: chip)
  next
    case False
    with that have "Find_number D m = Some r" by (simp add: num)
    from i3 [OF this that(2)] have f: "Find_chip D (m_sMicrochip (objs w r)) = Some r" .
    with c have "m_sMicrochip (objs w r) = m_sMicrochip (objs w p) \<Longrightarrow> False"
      using that(2) by auto
    with f show ?thesis by (auto simp: chip)
  qed
  show ?thesis
    unfolding CDogs_inv_def D'_def [symmetric] using 1 2 3 by blast
qed

lemma Add_step_inv:
  assumes "CDogs_inv (objs (snd Dw)) (fst Dw)"
  shows "CDogs_inv (objs (snd (Add_step p Dw))) (fst (Add_step p Dw))
       \<and> objs (snd (Add_step p Dw)) = objs (snd Dw)"
proof (cases "Add p (fst Dw) (snd Dw)")
  case (fields ok D' w')
  with Add_inv [OF assms, of p] Add_objs [of p "fst Dw" "snd Dw"]
  show ?thesis by (simp add: Add_step_def)
qed

lemma fold_Add_step_inv:
  assumes "CDogs_inv (objs (snd Dw)) (fst Dw)"
  shows "CDogs_inv (objs (snd Dw)) (fst (fold Add_step ps Dw))
       \<and> objs (snd (fold Add_step ps Dw)) = objs (snd Dw)"
  using assms
proof (induction ps arbitrary: Dw)
  case Nil
  then show ?case by simp
next
  case (Cons p ps)
  note s = Add_step_inv [OF Cons.prems, of p]
  note 1 = s [THEN conjunct1] and 2 = s [THEN conjunct2]
  from Cons.IH [OF 1] show ?case by (simp add: 2)
qed

lemma Add_all_inv:
  "CDogs_inv (objs w) (fst (Add_all ps w)) \<and> objs (snd (Add_all ps w)) = objs w"
  using fold_Add_step_inv [of "(CDogs_empty, w)" ps]
  by (simp add: Add_all_def CDogs_inv_empty)

lemma Add_rejects:
  assumes "Find_number D (m_nNumber (objs w q)) \<noteq> None
     \<or> (m_sMicrochip (objs w q) \<noteq> [] \<and> Find_chip D (m_sMicrochip (objs w q)) \<noteq> None)"
  shows "\<not> fst (Add q D w) \<and> fst (snd (Add q D w)) = D
       \<and> length (baddogs (snd (snd (Add q D w)))) = Suc (length (baddogs w))
       \<and> objs (snd (snd (Add q D w))) = objs w"
  using assms by (auto simp: Add_def Let_def state_simps split: option.splits)

lemma Add_accepts:
  assumes n: "Find_number D (m_nNumber (objs w q)) = None"
    and c: "m_sMicrochip (objs w q) \<noteq> [] \<longrightarrow> Find_chip D (m_sMicrochip (objs w q)) = None"
  shows "fst (Add q D w) \<and> snd (snd (Add q D w)) = w
    \<and> (\<forall>m. Find_number (fst (snd (Add q D w))) m
          = (if m = m_nNumber (objs w q) then Some q else Find_number D m))
    \<and> (\<forall>k. Find_chip (fst (snd (Add q D w))) k
          = (if k = m_sMicrochip (objs w q) \<and> k \<noteq> [] then Some q else Find_chip D k))"
  using n c
  by (cases "m_sMicrochip (objs w q) = []")
     (auto simp: Add_def Let_def Find_number_def Find_chip_def map_of_map_insert)

lemma Add_step_keeps:
  "(Find_number (fst Dw) n = Some p \<longrightarrow> Find_number (fst (Add_step q Dw)) n = Some p)
   \<and> (Find_chip (fst Dw) k = Some p \<longrightarrow> Find_chip (fst (Add_step q Dw)) k = Some p)"
  by (auto simp: Add_step_def Add_def Let_def Find_number_def Find_chip_def map_of_map_insert
      split: option.splits)

lemma fold_Add_step_keeps:
  "(Find_number (fst Dw) n = Some p \<longrightarrow> Find_number (fst (fold Add_step qs Dw)) n = Some p)
   \<and> (Find_chip (fst Dw) k = Some p \<longrightarrow> Find_chip (fst (fold Add_step qs Dw)) k = Some p)"
proof (induction qs arbitrary: Dw)
  case Nil
  show ?case by simp
next
  case (Cons q qs)
  from Add_step_keeps [of Dw n p q k] Cons [of "Add_step q Dw"] show ?case by simp
qed

lemma Add_all_append: "Add_all (ps @ qs) w = fold Add_step qs (Add_all ps w)"
  by (simp add: Add_all_def)

lemma Add_all_snoc:
  "Add_all (ps @ [q]) w
    = (fst (snd (Add q (fst (Add_all ps w)) (snd (Add_all ps w)))),
       snd (snd (Add q (fst (Add_all ps w)) (snd (Add_all ps w)))))"
  by (simp add: Add_all_def Add_step_def split: prod.splits)

lemma Add_all_distinct:
  assumes "distinct (map (\<lambda>p. m_nNumber (objs w p)) ps)"
    and "distinct (filter (\<lambda>k. k \<noteq> []) (map (\<lambda>p. m_sMicrochip (objs w p)) ps))"
  shows "snd (Add_all ps w) = w
    \<and> (\<forall>n p. Find_number (fst (Add_all ps w)) n = Some p \<longleftrightarrow> p \<in> set ps \<and> m_nNumber (objs w p) = n)
    \<and> (\<forall>k p. Find_chip (fst (Add_all ps w)) k = Some p
          \<longleftrightarrow> p \<in> set ps \<and> m_sMicrochip (objs w p) = k \<and> k \<noteq> [])"
  using assms
proof (induction ps rule: rev_induct)
  case Nil
  show ?case
    by (simp add: Add_all_def CDogs_empty_def Find_number_def Find_chip_def)
next
  case (snoc q ps)
  let ?D = "fst (Add_all ps w)"
  from snoc.prems have d: "distinct (map (\<lambda>p. m_nNumber (objs w p)) ps)"
    "distinct (filter (\<lambda>k. k \<noteq> []) (map (\<lambda>p. m_sMicrochip (objs w p)) ps))"
    by simp_all
  note ih = snoc.IH [OF d]
  from ih have w: "snd (Add_all ps w) = w"
    and fn: "\<And>n p. Find_number ?D n = Some p \<longleftrightarrow> p \<in> set ps \<and> m_nNumber (objs w p) = n"
    and fc: "\<And>k p. Find_chip ?D k = Some p
          \<longleftrightarrow> p \<in> set ps \<and> m_sMicrochip (objs w p) = k \<and> k \<noteq> []"
    by blast+
  from snoc.prems(1) have "m_nNumber (objs w q) \<notin> (\<lambda>p. m_nNumber (objs w p)) ` set ps"
    by simp
  then have n: "Find_number ?D (m_nNumber (objs w q)) = None"
  proof (cases "Find_number ?D (m_nNumber (objs w q))")
    case (Some a)
    then have "a \<in> set ps \<and> m_nNumber (objs w a) = m_nNumber (objs w q)"
      using fn [of "m_nNumber (objs w q)" a] by blast
    with \<open>m_nNumber (objs w q) \<notin> (\<lambda>p. m_nNumber (objs w p)) ` set ps\<close>
    have False by (metis image_eqI)
    then show ?thesis ..
  qed simp
  have c: "m_sMicrochip (objs w q) \<noteq> [] \<longrightarrow> Find_chip ?D (m_sMicrochip (objs w q)) = None"
  proof
    assume ne: "m_sMicrochip (objs w q) \<noteq> []"
    with snoc.prems(2)
    have "m_sMicrochip (objs w q) \<notin> (\<lambda>p. m_sMicrochip (objs w p)) ` set ps"
      by auto
    then show "Find_chip ?D (m_sMicrochip (objs w q)) = None"
    proof (cases "Find_chip ?D (m_sMicrochip (objs w q))")
      case (Some a)
      then have "a \<in> set ps \<and> m_sMicrochip (objs w a) = m_sMicrochip (objs w q)"
        using fc [of "m_sMicrochip (objs w q)" a] by blast
      with \<open>m_sMicrochip (objs w q) \<notin> (\<lambda>p. m_sMicrochip (objs w p)) ` set ps\<close>
      have False by (metis image_eqI)
      then show ?thesis ..
    qed simp
  qed
  note a = Add_accepts [OF n c]
  from a have a2: "snd (snd (Add q ?D w)) = w"
    and an: "\<And>m. Find_number (fst (snd (Add q ?D w))) m
          = (if m = m_nNumber (objs w q) then Some q else Find_number ?D m)"
    and ac: "\<And>k. Find_chip (fst (snd (Add q ?D w))) k
          = (if k = m_sMicrochip (objs w q) \<and> k \<noteq> [] then Some q else Find_chip ?D k)"
    by blast+
  have s: "Add_all (ps @ [q]) w = (fst (snd (Add q ?D w)), snd (snd (Add q ?D w)))"
    using Add_all_snoc [of ps q w] by (simp add: w)
  have 1: "snd (Add_all (ps @ [q]) w) = w" by (simp add: s a2)
  have 2: "Find_number (fst (Add_all (ps @ [q]) w)) m = Some p
      \<longleftrightarrow> p \<in> set (ps @ [q]) \<and> m_nNumber (objs w p) = m" for m p
    using n fn [of m p] fn [of "m_nNumber (objs w q)" p] by (auto simp: s an)
  have 3: "Find_chip (fst (Add_all (ps @ [q]) w)) k = Some p
      \<longleftrightarrow> p \<in> set (ps @ [q]) \<and> m_sMicrochip (objs w p) = k \<and> k \<noteq> []" for k p
    using c fc [of k p] fc [of "m_sMicrochip (objs w q)" p] by (auto simp: s ac)
  from 1 2 3 show ?case by blast
qed

text \<open>
  Claim C3.  After any sequence of \<open>Add\<close> calls on an empty collection (the heap of records
  is not touched by them): every record of the number table is filed under its own number, it is
  in the chip table exactly when its microchip field is not empty, and then under that
  microchip; every entry of the chip table points to a record that the number table resolves
  to the same pointer.  An \<open>Add\<close> of a record whose number, or whose non-empty microchip,
  is a key already returns false, leaves both tables as they are and appends one row to the
  error report.  Every other \<open>Add\<close> returns true, reports nothing, files the record under its
  number, files it under its microchip exactly when that is not empty, and leaves every other
  key as it was; this \<open>Add\<close> is the next step of the sequence, and what a table holds it
  keeps through all further calls.  When the records of the sequence have distinct numbers and
  distinct non-empty microchips, the number table holds exactly the records of the sequence and
  the chip table exactly those of them with a microchip.
\<close>

theorem Add_keeps_indexes_consistent:
  "let D = fst (Add_all ps w); w' = snd (Add_all ps w) in
     objs w' = objs w \<and>
     (\<forall>n p. Find_number D n = Some p \<longrightarrow>
        m_nNumber (objs w p) = n \<and>
        ((\<exists>c. Find_chip D c = Some p) \<longleftrightarrow> m_sMicrochip (objs w p) \<noteq> []) \<and>
        (m_sMicrochip (objs w p) \<noteq> [] \<longrightarrow> Find_chip D (m_sMicrochip (objs w p)) = Some p)) \<and>
     (\<forall>c p. Find_chip D c = Some p \<longrightarrow>
        m_sMicrochip (objs w p) = c \<and> Find_number D (m_nNumber (objs w p)) = Some p) \<and>
     (\<forall>q. Find_number D (m_nNumber (objs w q)) \<noteq> None
           \<or> (m_sMicrochip (objs w q) \<noteq> [] \<and> Find_chip D (m_sMicrochip (objs w q)) \<noteq> None) \<longrightarrow>
        \<not> fst (Add q D w') \<and> fst (snd (Add q D w')) = D \<and>
        length (baddogs (snd (snd (Add q D w')))) = Suc (length (baddogs w'))) \<and>
     (\<forall>q. Find_number D (m_nNumber (objs w q)) = None
           \<and> (m_sMicrochip (objs w q) \<noteq> [] \<longrightarrow> Find_chip D (m_sMicrochip (objs w q)) = None) \<longrightarrow>
        fst (Add q D w') \<and> snd (snd (Add q D w')) = w' \<and>
        (\<forall>n. Find_number (fst (snd (Add q D w'))) n
           = (if n = m_nNumber (objs w q) then Some q else Find_number D n)) \<and>
        (\<forall>c. Find_chip (fst (snd (Add q D w'))) c
           = (if c = m_sMicrochip (objs w q) \<and> c \<noteq> [] then Some q else Find_chip D c))) \<and>
     (\<forall>q. Add_all (ps @ [q]) w = (fst (snd (Add q D w')), snd (snd (Add q D w')))) \<and>
     (\<forall>qs n p. Find_number D n = Some p \<longrightarrow> Find_number (fst (Add_all (ps @ qs) w)) n = Some p) \<and>
     (\<forall>qs c p. Find_chip D c = Some p \<longrightarrow> Find_chip (fst (Add_all (ps @ qs) w)) c = Some p) \<and>
     (distinct (map (\<lambda>p. m_nNumber (objs w p)) ps)
        \<and> distinct (filter (\<lambda>c. c \<noteq> []) (map (\<lambda>p. m_sMicrochip (objs w p)) ps)) \<longrightarrow>
        w' = w \<and>
        (\<forall>n p. Find_number D n = Some p \<longleftrightarrow> p \<in> set ps \<and> m_nNumber (objs w p) = n) \<and>
        (\<forall>c p. Find_chip D c = Some p \<longleftrightarrow> p \<in> set ps \<and> m_sMicrochip (objs w p) = c \<and> c \<noteq> []))"
proof -
  let ?D = "fst (Add_all ps w)" and ?w' = "snd (Add_all ps w)"
  have inv: "CDogs_inv (objs w) ?D" and o: "objs ?w' = objs w"
    using Add_all_inv [of w ps] by simp_all
  have a: "m_nNumber (objs w p) = n \<and>
        ((\<exists>c. Find_chip ?D c = Some p) \<longleftrightarrow> m_sMicrochip (objs w p) \<noteq> []) \<and>
        (m_sMicrochip (objs w p) \<noteq> [] \<longrightarrow> Find_chip ?D (m_sMicrochip (objs w p)) = Some p)"
    if "Find_number ?D n = Some p" for n p
    using inv that unfolding CDogs_inv_def by blast
  have b: "m_sMicrochip (objs w p) = c \<and> Find_number ?D (m_nNumber (objs w p)) = Some p"
    if "Find_chip ?D c = Some p" for c p
    using inv that unfolding CDogs_inv_def by blast
  have c: "\<not> fst (Add q ?D ?w') \<and> fst (snd (Add q ?D ?w')) = ?D \<and>
        length (baddogs (snd (snd (Add q ?D ?w')))) = Suc (length (baddogs ?w'))"
    if "Find_number ?D (m_nNumber (objs w q)) \<noteq> None
           \<or> (m_sMicrochip (objs w q) \<noteq> [] \<and> Find_chip ?D (m_sMicrochip (objs w q)) \<noteq> None)" for q
    using Add_rejects [of ?D ?w' q] that unfolding o by blast
  have d: "fst (Add q ?D ?w') \<and> snd (snd (Add q ?D ?w')) = ?w' \<and>
        (\<forall>n. Find_number (fst (snd (Add q ?D ?w'))) n
           = (if n = m_nNumber (objs w q) then Some q else Find_number ?D n)) \<and>
        (\<forall>c. Find_chip (fst (snd (Add q ?D ?w'))) c
           = (if c = m_sMicrochip (objs w q) \<and> c \<noteq> [] then Some q else Find_chip ?D c))"
    if "Find_number ?D (m_nNumber (objs w q)) = None
           \<and> (m_sMicrochip (objs w q) \<noteq> [] \<longrightarrow> Find_chip ?D (m_sMicrochip (objs w q)) = None)" for q
  proof -
    note x = Add_accepts [of ?D ?w' q, unfolded o]
    from that have p1: "Find_number ?D (m_nNumber (objs w q)) = None"
      and p2: "m_sMicrochip (objs w q) \<noteq> [] \<longrightarrow> Find_chip ?D (m_sMicrochip (objs w q)) = None"
      by blast+
    show ?thesis by (rule x [OF p1 p2])
  qed
  have e: "Add_all (ps @ [q]) w = (fst (snd (Add q ?D ?w')), snd (snd (Add q ?D ?w')))" for q
    by (rule Add_all_snoc)
  have f: "Find_number (fst (Add_all (ps @ qs) w)) n = Some p" if "Find_number ?D n = Some p" for qs n p
    using fold_Add_step_keeps [of "Add_all ps w" n p qs] that by (simp add: Add_all_append)
  have g: "Find_chip (fst (Add_all (ps @ qs) w)) k = Some p" if "Find_chip ?D k = Some p" for qs k p
    using fold_Add_step_keeps [of "Add_all ps w" _ p qs k] that by (simp add: Add_all_append)
  have h: "?w' = w \<and>
        (\<forall>n p. Find_number ?D n = Some p \<longleftrightarrow> p \<in> set ps \<and> m_nNumber (objs w p) = n) \<and>
        (\<forall>c p. Find_chip ?D c = Some p \<longleftrightarrow> p \<in> set ps \<and> m_sMicrochip (objs w p) = c \<and> c \<noteq> [])"
    if "distinct (map (\<lambda>p. m_nNumber (objs w p)) ps)
        \<and> distinct (filter (\<lambda>c. c \<noteq> []) (map (\<lambda>p. m_sMicrochip (objs w p)) ps))"
    using Add_all_distinct [of w ps] that by blast
  from o a b have 1: "objs ?w' = objs w \<and>
     (\<forall>n p. Find_number ?D n = Some p \<longrightarrow>
        m_nNumber (objs w p) = n \<and>
        ((\<exists>c. Find_chip ?D c = Some p) \<longleftrightarrow> m_sMicrochip (objs w p) \<noteq> []) \<and>
        (m_sMicrochip (objs w p) \<noteq> [] \<longrightarrow> Find_chip ?D (m_sMicrochip (objs w p)) = Some p)) \<and>
     (\<forall>c p. Find_chip ?D c = Some p \<longrightarrow>
        m_sMicrochip (objs w p) = c \<and> Find_number ?D (m_nNumber (objs w p)) = Some p)"
    by blast
  show ?thesis unfolding Let_def
    apply (intro conjI)
    subgoal using 1 by blast
    subgoal using 1 by blast
    subgoal using 1 by blast
    subgoal using c by blast
    subgoal using d by blast
    subgoal using e by blast
    subgoal using f by blast
    subgoal using g by blast
    subgoal using h by blast
    done
qed

lemma two_reports_keys:
  "m_nNumber new_100 = 100" "m_nNumber new_101 = 101" "m_nNumber new_102 = 102"
  "m_nNumber new_200 = 200" "m_nNumber old_100 = 100"
  "m_sMicrochip new_100 = ''981023456789012''" "m_sMicrochip new_101 = []"
  "m_sMicrochip new_102 = ''0A1B2C3D4E''" "m_sMicrochip new_200 = ''981020000000200''"
  "m_sMicrochip old_200 = ''981020000000200''"
  by (simp_all add: new_100_def old_100_def new_101_def new_102_def new_200_def old_200_def
      Initialize_def)

lemma Add_all_new_report: "Add_all [11, 12, 13, 15] two_reports = (new_report, two_reports)"
  by (simp add: Add_all_def Add_step_def Add_def Let_def map_insert_def CDogs_empty_def
      Find_number_def Find_chip_def two_reports_objs two_reports_keys new_report_def)

lemma Add_all_three:
  "Add_all [11, 12, 13] two_reports
    = (\<lparr> m_mapNumber = [(100, 11), (101, 12), (102, 13)],
         m_mapChip = [(''981023456789012'', 11), (''0A1B2C3D4E'', 13)] \<rparr>, two_reports)"
  by (simp add: Add_all_def Add_step_def Add_def Let_def map_insert_def CDogs_empty_def
      Find_number_def Find_chip_def two_reports_objs two_reports_keys)

text \<open>
  C3 on the small example.  In the new report, built by four insertions of records with
  distinct keys, dog 100 is in both tables, dog 101 (no microchip) only in the number table,
  dog 102 is in the number table, and the old records of dogs 100 and 200 are refused.  After
  three insertions the record of dog 200 is accepted and filed under its number and its
  microchip, and dog 100 stays in the number table when two more records are offered.
\<close>

theorem Add_keeps_indexes_consistent_witness:
  "Find_number new_report 100 = Some 11 \<and> Find_chip new_report ''981023456789012'' = Some 11 \<and>
   Find_number new_report 101 = Some 12 \<and> (\<forall>c. Find_chip new_report c \<noteq> Some 12) \<and>
   \<not> fst (Add 10 new_report two_reports) \<and> fst (snd (Add 10 new_report two_reports)) = new_report \<and>
   \<not> fst (Add 14 new_report two_reports) \<and> fst (snd (Add 14 new_report two_reports)) = new_report \<and>
   Find_number new_report 102 = Some 13 \<and>
   fst (Add 15 (fst (Add_all [11, 12, 13] two_reports)) two_reports) \<and>
   Find_number (fst (snd (Add 15 (fst (Add_all [11, 12, 13] two_reports)) two_reports))) 200 = Some 15 \<and>
   Find_chip (fst (snd (Add 15 (fst (Add_all [11, 12, 13] two_reports)) two_reports)))
     ''981020000000200'' = Some 15 \<and>
   Find_number (fst (Add_all ([11, 12, 13] @ [10, 14]) two_reports)) 100 = Some 11"
proof -
  note t = Add_keeps_indexes_consistent [of "[11, 12, 13, 15]" two_reports,
      unfolded Let_def Add_all_new_report fst_conv snd_conv]
  have n: "Find_number new_report 100 = Some 11" "Find_number new_report 101 = Some 12"
    by (simp_all add: Find_number_def new_report_def)
  note inv = t [THEN conjunct2, THEN conjunct1, rule_format]
  from inv [OF n(1)] have "m_sMicrochip (objs two_reports 11) \<noteq> [] \<longrightarrow>
      Find_chip new_report (m_sMicrochip (objs two_reports 11)) = Some 11"
    by blast
  then have 1: "Find_chip new_report ''981023456789012'' = Some 11"
    by (simp add: two_reports_objs two_reports_keys)
  from inv [OF n(2)]
  have "(\<exists>c. Find_chip new_report c = Some 12) \<longleftrightarrow> m_sMicrochip (objs two_reports 12) \<noteq> []"
    by blast
  then have 2: "\<forall>c. Find_chip new_report c \<noteq> Some 12"
    by (simp add: two_reports_objs two_reports_keys)
  note rej = t [THEN conjunct2, THEN conjunct2, THEN conjunct2, THEN conjunct1, rule_format]
  have r10: "Find_number new_report (m_nNumber (objs two_reports 10)) \<noteq> None
           \<or> (m_sMicrochip (objs two_reports 10) \<noteq> []
               \<and> Find_chip new_report (m_sMicrochip (objs two_reports 10)) \<noteq> None)"
    by (simp add: two_reports_objs two_reports_keys n)
  have r14: "Find_number new_report (m_nNumber (objs two_reports 14)) \<noteq> None
           \<or> (m_sMicrochip (objs two_reports 14) \<noteq> []
               \<and> Find_chip new_report (m_sMicrochip (objs two_reports 14)) \<noteq> None)"
    by (simp add: two_reports_objs two_reports_keys Find_chip_def new_report_def)
  from rej [OF r10]
  have 3: "\<not> fst (Add 10 new_report two_reports) \<and> fst (snd (Add 10 new_report two_reports)) = new_report"
    by blast
  from rej [OF r14]
  have 4: "\<not> fst (Add 14 new_report two_reports) \<and> fst (snd (Add 14 new_report two_reports)) = new_report"
    by blast
  note dis = t [THEN conjunct2, THEN conjunct2, THEN conjunct2, THEN conjunct2, THEN conjunct2,
      THEN conjunct2, THEN conjunct2, THEN conjunct2, rule_format]
  have d: "distinct (map (\<lambda>p. m_nNumber (objs two_reports p)) [11, 12, 13, 15])
      \<and> distinct (filter (\<lambda>c. c \<noteq> []) (map (\<lambda>p. m_sMicrochip (objs two_reports p)) [11, 12, 13, 15]))"
    by (simp add: two_reports_objs two_reports_keys)
  note d13 = dis [OF d, THEN conjunct2, THEN conjunct1, rule_format, of 102 13]
  have 5: "Find_number new_report 102 = Some 13"
    unfolding d13 by (simp add: two_reports_objs two_reports_keys)
  note u = Add_keeps_indexes_consistent [of "[11, 12, 13]" two_reports, unfolded Let_def]
  have s3: "snd (Add_all [11, 12, 13] two_reports) = two_reports"
    "objs (snd (Add_all [11, 12, 13] two_reports)) = objs two_reports"
    by (simp_all add: Add_all_three)
  have a15: "Find_number (fst (Add_all [11, 12, 13] two_reports)) (m_nNumber (objs two_reports 15)) = None
      \<and> (m_sMicrochip (objs two_reports 15) \<noteq> [] \<longrightarrow>
        Find_chip (fst (Add_all [11, 12, 13] two_reports)) (m_sMicrochip (objs two_reports 15)) = None)"
    by (simp add: Add_all_three two_reports_objs two_reports_keys Find_number_def Find_chip_def)
  note acc = u [THEN conjunct2, THEN conjunct2, THEN conjunct2, THEN conjunct2, THEN conjunct1,
      rule_format, OF a15, unfolded s3]
  note 6 = acc [THEN conjunct1]
  note fn = acc [THEN conjunct2, THEN conjunct2, THEN conjunct1, rule_format, of 200]
  note fc = acc [THEN conjunct2, THEN conjunct2, THEN conjunct2, rule_format, of "''981020000000200''"]
  have 7: "Find_number (fst (snd (Add 15 (fst (Add_all [11, 12, 13] two_reports)) two_reports))) 200
      = Some 15"
    unfolding fn by (simp add: two_reports_objs two_reports_keys)
  have 8: "Find_chip (fst (snd (Add 15 (fst (Add_all [11, 12, 13] two_reports)) two_reports)))
        ''981020000000200'' = Some 15"
    unfolding fc by (simp add: two_reports_objs two_reports_keys)
  note keep = u [THEN conjunct2, THEN conjunct2, THEN conjunct2, THEN conjunct2, THEN conjunct2,
      THEN conjunct2, THEN conjunct1, rule_format]
  have k: "Find_number (fst (Add_all [11, 12, 13] two_reports)) 100 = Some 11"
    by (simp add: Add_all_three Find_number_def)
  from keep [OF k, of "[10, 14]"]
  have 9: "Find_number (fst (Add_all ([11, 12, 13] @ [10, 14]) two_reports)) 100 = Some 11" .
  show ?thesis
    apply (intro conjI)
                apply (rule n(1))
               apply (rule 1)
              apply (rule n(2))
             apply (rule 2)
            apply (rule 3 [THEN conjunct1])
           apply (rule 3 [THEN conjunct2])
          apply (rule 4 [THEN conjunct1])
         apply (rule 4 [THEN conjunct2])
        apply (rule 5)
       apply (rule 6)
      apply (rule 7)
     apply (rule 8)
    apply (rule 9)
    done
qed

section \<open>The date of birth\<close>

lemma search_date_example:
  "regex_search ''2020-05-15'' reDate = Some [(3, ''15''), (2, ''05''), (1, ''2020'')]"
  by (simp add: regex_search_def reDate_def cat_def digit_def is_char_def upt_rec)

lemma search_age_example:
  "regex_search ''3 years 2 months'' reAge = Some [(2, ''2''), (1, ''3'')]"
  by (simp add: regex_search_def reAge_def cat_def lit_def digit_def space_def is_char_def upt_rec)

lemma tolower_age_example: "tolower ''3 years 2 months'' = ''3 years 2 months''"
  by (simp add: tolower_def tolower_char_def)

lemma decimal_value_examples:
  "decimal_value ''3'' = 3" "decimal_value ''2'' = 2" "decimal_value ''2020'' = 2020"
  "decimal_value ''05'' = 5" "decimal_value ''15'' = 15"
  by (simp_all add: decimal_value_def digit_val_def)

lemma ParseDate_example: "ParseDate ''2020-05-15'' = Some (15, 5, 2020)"
  by (simp add: ParseDate_def search_date_example str_def decimal_value_examples Let_def)

lemma to_string_examples:
  "to_string 3 = ''3''" "to_string 15 = ''15''" "to_string 2017 = ''2017''"
  by (simp_all add: to_string.simps digit_char_def)

lemma FormatDate_example: "FormatDate 15 3 2017 = ''03/15/2017''"
  by (simp add: FormatDate_def printf_0d_def zero_pad_def to_string_examples)

lemma ComputeBirthday_example: "ComputeBirthday dog_aged = Inr (True, ''03/15/2017'')"
  by (simp add: ComputeBirthday_def dog_aged_def Initialize_def tolower_age_example
      search_age_example str_def stoi_def decimal_value_examples GetDateAcquired_def
      ParseDate_example Let_def to_uint32_def FormatDate_example)

text \<open>
  Claim C7 says that the age "3 years 2 months" and the acquisition date "2020-05-15" give
  the date of birth "05/01/2017".  \<open>ComputeBirthday\<close> does not return that.
\<close>

theorem ComputeBirthday_not_0501: "ComputeBirthday dog_aged \<noteq> Inr (True, ''05/01/2017'')"
  by (simp add: ComputeBirthday_example)

text \<open>
  Claim C7, amended.  For the age "3 years 2 months" and the acquisition date "2020-05-15"
  the computation succeeds and returns a date of the form MM/DD/YYYY whose month is 03
  (5 - 2) and whose year is 2017 (2020 - 3).
\<close>

theorem ComputeBirthday_month_and_year:
  "\<exists>dd. length dd = 2 \<and> ComputeBirthday dog_aged = Inr (True, ''03/'' @ dd @ ''/2017'')"
proof -
  have "length ''15'' = 2 \<and> ComputeBirthday dog_aged = Inr (True, ''03/'' @ ''15'' @ ''/2017'')"
    by (simp add: ComputeBirthday_example)
  then show ?thesis by blast
qed

section \<open>The matcher finds exactly the matches\<close>

lemma le_length_takeWhile_iff:
  "k \<le> length (takeWhile P s) \<longleftrightarrow> k \<le> length s \<and> list_all P (take k s)"
proof (induction s arbitrary: k)
  case Nil
  then show ?case by simp
next
  case (Cons c cs)
  then show ?case by (cases k) auto
qed

lemma rx_run_Rep_set:
  "set (rx_run (Rep lo hi P) (pos, s, caps))
   = {(pos + length u, s', caps) | u s'. s = u @ s' \<and> lo \<le> length u
        \<and> (case hi of None \<Rightarrow> True | Some h \<Rightarrow> length u \<le> h) \<and> list_all P u}"
  (is "?L = ?R")
proof (intro set_eqI iffI)
  fix x assume "x \<in> ?L"
  then obtain k where k: "lo \<le> k" "k \<le> length (takeWhile P s)"
      "case hi of None \<Rightarrow> True | Some h \<Rightarrow> k \<le> h" and x: "x = (pos + k, drop k s, caps)"
    by (auto simp: Let_def split: option.splits)
  from k(2) have "k \<le> length s" "list_all P (take k s)"
    by (simp_all add: le_length_takeWhile_iff)
  with k x have "x = (pos + length (take k s), drop k s, caps) \<and> s = take k s @ drop k s
      \<and> lo \<le> length (take k s) \<and> (case hi of None \<Rightarrow> True | Some h \<Rightarrow> length (take k s) \<le> h)
      \<and> list_all P (take k s)"
    by (auto simp: min_def split: option.splits)
  then show "x \<in> ?R" by blast
next
  fix x assume "x \<in> ?R"
  then obtain u s' where u: "s = u @ s'" "lo \<le> length u"
      "case hi of None \<Rightarrow> True | Some h \<Rightarrow> length u \<le> h" "list_all P u"
      and x: "x = (pos + length u, s', caps)"
    by blast
  from u(1,4) have "length u \<le> length (takeWhile P s)"
    by (simp add: le_length_takeWhile_iff)
  with u x show "x \<in> ?L"
    by (auto simp: Let_def image_iff split: option.splits intro!: bexI [of _ "length u"])
qed

lemma rx_run_consumes:
  "(pos', s', caps') \<in> set (rx_run r (pos, s, caps)) \<Longrightarrow> \<exists>u. s = u @ s' \<and> pos' = pos + length u"
proof (induction r arbitrary: pos s caps pos' s' caps')
  case (Chr P)
  then show ?case by (auto split: list.splits if_splits)
next
  case (Rep lo hi P)
  then show ?case unfolding rx_run_Rep_set by blast
next
  case (Opt r)
  then show ?case by auto
next
  case (Seq r1 r2)
  from Seq.prems obtain p1 s1 c1 where 1: "(p1, s1, c1) \<in> set (rx_run r1 (pos, s, caps))"
    and 2: "(pos', s', caps') \<in> set (rx_run r2 (p1, s1, c1))" by auto
  from Seq.IH(1) [OF 1] obtain u1 where u1: "s = u1 @ s1" "p1 = pos + length u1" by blast
  from Seq.IH(2) [OF 2] obtain u2 where u2: "s1 = u2 @ s'" "pos' = p1 + length u2" by blast
  from u1 u2 have "s = (u1 @ u2) @ s' \<and> pos' = pos + length (u1 @ u2)" by simp
  then show ?case by blast
next
  case (Grp i r)
  then show ?case by auto
next
  case Bol
  then show ?case by (auto split: if_splits)
next
  case Eol
  then show ?case by (auto split: if_splits)
next
  case Eps
  then show ?case by auto
qed

lemma rx_run_rel:
  "(pos', s', caps') \<in> set (rx_run r (pos, s, caps))
   \<longleftrightarrow> (\<exists>u. s = u @ s' \<and> pos' = pos + length u \<and> rx_rel r pos u s' caps caps')"
proof (induction r arbitrary: pos s caps pos' s' caps')
  case (Chr P)
  show ?case by (cases s) auto
next
  case (Rep lo hi P)
  show ?case unfolding rx_run_Rep_set by auto
next
  case (Opt r)
  show ?case by (auto simp: Opt.IH)
next
  case (Seq r1 r2)
  show ?case
  proof
    assume "(pos', s', caps') \<in> set (rx_run (Seq r1 r2) (pos, s, caps))"
    then obtain p1 s1 c1 where 1: "(p1, s1, c1) \<in> set (rx_run r1 (pos, s, caps))"
      and 2: "(pos', s', caps') \<in> set (rx_run r2 (p1, s1, c1))" by auto
    from 1 obtain u1 where u1: "s = u1 @ s1" "p1 = pos + length u1" "rx_rel r1 pos u1 s1 caps c1"
      unfolding Seq.IH(1) by blast
    from 2 obtain u2 where u2: "s1 = u2 @ s'" "pos' = p1 + length u2" "rx_rel r2 p1 u2 s' c1 caps'"
      unfolding Seq.IH(2) by blast
    from u1 u2 have "s = (u1 @ u2) @ s' \<and> pos' = pos + length (u1 @ u2)
        \<and> rx_rel (Seq r1 r2) pos (u1 @ u2) s' caps caps'"
      by auto
    then show "\<exists>u. s = u @ s' \<and> pos' = pos + length u \<and> rx_rel (Seq r1 r2) pos u s' caps caps'"
      by blast
  next
    assume "\<exists>u. s = u @ s' \<and> pos' = pos + length u \<and> rx_rel (Seq r1 r2) pos u s' caps caps'"
    then obtain u1 u2 c1 where s: "s = (u1 @ u2) @ s'" and p: "pos' = pos + length (u1 @ u2)"
      and 1: "rx_rel r1 pos u1 (u2 @ s') caps c1"
      and 2: "rx_rel r2 (pos + length u1) u2 s' c1 caps'"
      by auto
    from s 1 have a: "(pos + length u1, u2 @ s', c1) \<in> set (rx_run r1 (pos, s, caps))"
      unfolding Seq.IH(1) by auto
    from p 2 have b: "(pos', s', caps') \<in> set (rx_run r2 (pos + length u1, u2 @ s', c1))"
      unfolding Seq.IH(2) by auto
    from a b show "(pos', s', caps') \<in> set (rx_run (Seq r1 r2) (pos, s, caps))"
      by auto
  qed
next
  case (Grp i r)
  show ?case
  proof
    assume "(pos', s', caps') \<in> set (rx_run (Grp i r) (pos, s, caps))"
    then obtain c0 where m: "(pos', s', c0) \<in> set (rx_run r (pos, s, caps))"
      and c: "caps' = (i, take (pos' - pos) s) # c0"
      by auto
    from m obtain u where u: "s = u @ s'" "pos' = pos + length u" "rx_rel r pos u s' caps c0"
      unfolding Grp.IH by blast
    with c show "\<exists>u. s = u @ s' \<and> pos' = pos + length u \<and> rx_rel (Grp i r) pos u s' caps caps'"
      by auto
  next
    assume "\<exists>u. s = u @ s' \<and> pos' = pos + length u \<and> rx_rel (Grp i r) pos u s' caps caps'"
    then obtain u c0 where u: "s = u @ s'" "pos' = pos + length u" "rx_rel r pos u s' caps c0"
      and c: "caps' = (i, u) # c0"
      by auto
    from u have "(pos', s', c0) \<in> set (rx_run r (pos, s, caps))"
      unfolding Grp.IH by blast
    with u c show "(pos', s', caps') \<in> set (rx_run (Grp i r) (pos, s, caps))"
      by (auto simp: image_iff intro!: bexI [of _ "(pos', s', c0)"])
  qed
next
  case Bol
  show ?case by auto
next
  case Eol
  show ?case by auto
next
  case Eps
  show ?case by auto
qed

section \<open>Matching and searching; the microchip number\<close>

lemma regex_match_None:
  "regex_match s r = None \<longleftrightarrow> \<not> (\<exists>caps'. rx_rel r 0 s [] [] caps')"
proof -
  have "regex_match s r = None
        \<longleftrightarrow> filter (\<lambda>(pos, rest, caps). rest = []) (rx_run r (0, s, [])) = []"
    by (simp add: regex_match_def split: list.splits prod.splits)
  also have "\<dots> \<longleftrightarrow> \<not> (\<exists>pos' caps'. (pos', [], caps') \<in> set (rx_run r (0, s, [])))"
    by (auto simp: filter_empty_conv)
  also have "\<dots> \<longleftrightarrow> \<not> (\<exists>caps'. rx_rel r 0 s [] [] caps')"
    by (simp add: rx_run_rel)
  finally show ?thesis .
qed

lemma regex_match_Some:
  assumes "regex_match s r = Some caps'"
  shows "rx_rel r 0 s [] [] caps'"
proof -
  from assms obtain pos' rest xs where
    "filter (\<lambda>(pos, rest, caps). rest = []) (rx_run r (0, s, [])) = (pos', rest, caps') # xs"
    by (auto simp: regex_match_def split: list.splits prod.splits)
  then have "(pos', rest, caps') \<in> set (filter (\<lambda>(pos, rest, caps). rest = []) (rx_run r (0, s, [])))"
    by simp
  then have "(pos', [], caps') \<in> set (rx_run r (0, s, []))" by auto
  then show ?thesis by (simp add: rx_run_rel)
qed

lemma search_anchored_runs:
  "concat (map (\<lambda>i. rx_run (Seq Bol r) (i, drop i s, [])) [0 ..< Suc (length s)])
   = rx_run r (0, s, [])"
proof -
  have "concat (map (\<lambda>i. rx_run (Seq Bol r) (i, drop i s, [])) [Suc 0 ..< Suc (length s)]) = []"
    by (auto simp: concat_eq_Nil_conv)
  then show ?thesis by (simp add: upt_rec [of 0])
qed

lemma regex_search_None:
  "regex_search s (Seq Bol r) = None \<longleftrightarrow> \<not> (\<exists>u s' caps'. s = u @ s' \<and> rx_rel r 0 u s' [] caps')"
proof -
  have "regex_search s (Seq Bol r) = None \<longleftrightarrow> rx_run r (0, s, []) = []"
    unfolding regex_search_def search_anchored_runs by (simp split: list.splits prod.splits)
  also have "\<dots> \<longleftrightarrow> \<not> (\<exists>pos' s' caps'. (pos', s', caps') \<in> set (rx_run r (0, s, [])))"
    by (cases "rx_run r (0, s, [])") auto
  also have "\<dots> \<longleftrightarrow> \<not> (\<exists>u s' caps'. s = u @ s' \<and> rx_rel r 0 u s' [] caps')"
    by (simp add: rx_run_rel) blast
  finally show ?thesis .
qed

lemma regex_search_Some:
  assumes "regex_search s (Seq Bol r) = Some caps'"
  shows "\<exists>u s'. s = u @ s' \<and> rx_rel r 0 u s' [] caps'"
proof -
  from assms obtain pos' s' xs where "rx_run r (0, s, []) = (pos', s', caps') # xs"
    unfolding regex_search_def search_anchored_runs by (auto split: list.splits prod.splits)
  then have "(pos', s', caps') \<in> set (rx_run r (0, s, []))" by simp
  then show ?thesis by (auto simp: rx_run_rel)
qed

lemma rel_Seq_GrpE:
  assumes "rx_rel (Seq (Grp i r1) r) pos u after caps caps'"
  obtains a u2 caps0 where "u = a @ u2" "rx_rel r1 pos a (u2 @ after) caps caps0"
    "rx_rel r (pos + length a) u2 after ((i, a) # caps0) caps'"
  using assms by auto

lemma rel_Seq_GrpI:
  assumes "rx_rel r1 pos a (u2 @ after) caps caps0"
    and "rx_rel r (pos + length a) u2 after ((i, a) # caps0) caps'"
  shows "rx_rel (Seq (Grp i r1) r) pos (a @ u2) after caps caps'"
  using assms by auto

lemma rel_Rep_exact: "rx_rel (Rep n (Some n) P) pos a after caps caps' \<longleftrightarrow> length a = n \<and> list_all P a \<and> caps' = caps"
  by auto

lemma rel_Seq_OptE:
  assumes "rx_rel (Seq (Opt (Chr P)) r) pos u after caps caps'"
  obtains "rx_rel r pos u after caps caps'"
  | g u2 where "u = g # u2" "P g" "rx_rel r (Suc pos) u2 after caps caps'"
  using assms by auto

lemma rel_Seq_Opt_skipI:
  assumes "rx_rel r pos u after caps caps'"
  shows "rx_rel (Seq (Opt (Chr P)) r) pos u after caps caps'"
proof -
  from assms have "u = [] @ u \<and> rx_rel (Opt (Chr P)) pos [] (u @ after) caps caps
      \<and> rx_rel r (pos + length ([]::string)) u after caps caps'"
    by simp
  then show ?thesis unfolding rx_rel.simps(4) by blast
qed

lemma rel_Seq_Opt_takeI:
  assumes "P g" and "rx_rel r (Suc pos) u2 after caps caps'"
  shows "rx_rel (Seq (Opt (Chr P)) r) pos (g # u2) after caps caps'"
proof -
  from assms have "g # u2 = [g] @ u2 \<and> rx_rel (Opt (Chr P)) pos [g] (u2 @ after) caps caps
      \<and> rx_rel r (pos + length [g]) u2 after caps caps'"
    by simp
  then show ?thesis unfolding rx_rel.simps(4) by blast
qed

lemma rel_Seq_ChrE:
  assumes "rx_rel (Seq (Chr P) r) pos u after caps caps'"
  obtains g u2 where "u = g # u2" "P g" "rx_rel r (Suc pos) u2 after caps caps'"
  using assms by auto

lemma rel_Seq_ChrI:
  assumes "P g" and "rx_rel r (Suc pos) u2 after caps caps'"
  shows "rx_rel (Seq (Chr P) r) pos (g # u2) after caps caps'"
proof -
  from assms have "g # u2 = [g] @ u2 \<and> rx_rel (Chr P) pos [g] (u2 @ after) caps caps
      \<and> rx_rel r (pos + length [g]) u2 after caps caps'"
    by simp
  then show ?thesis unfolding rx_rel.simps(4) by blast
qed

lemma rel_Seq_RepE:
  assumes "rx_rel (Seq (Rep lo hi P) r) pos u after caps caps'"
  obtains a u2 where "u = a @ u2" "lo \<le> length a"
    "case hi of None \<Rightarrow> True | Some h \<Rightarrow> length a \<le> h" "list_all P a"
    "rx_rel r (pos + length a) u2 after caps caps'"
  using assms by auto

lemma rel_Seq_RepI:
  assumes "lo \<le> length a" "case hi of None \<Rightarrow> True | Some h \<Rightarrow> length a \<le> h" "list_all P a"
    and "rx_rel r (pos + length a) u2 after caps caps'"
  shows "rx_rel (Seq (Rep lo hi P) r) pos (a @ u2) after caps caps'"
proof -
  from assms have "a @ u2 = a @ u2 \<and> rx_rel (Rep lo hi P) pos a (u2 @ after) caps caps
      \<and> rx_rel r (pos + length a) u2 after caps caps'"
    by simp
  then show ?thesis unfolding rx_rel.simps(4) by blast
qed

lemma rel_Seq_Eol_Eps:
  "rx_rel (Seq Eol Eps) pos u after caps caps' \<longleftrightarrow> u = [] \<and> after = [] \<and> caps' = caps"
  by auto

declare rx_rel.simps [simp del]

lemma chip_gap_cases:
  assumes "chip_gap x"
  obtains "x = []" | g where "x = [g]" "one_of '' *'' g"
  using assms by (auto simp: chip_gap_def one_of_def)

lemma digit_not_gap: "digit g \<Longrightarrow> \<not> one_of '' *'' g"
  by (auto simp: digit_def one_of_def)

lemma reOld_relD:
  assumes "rx_rel reOld_tail 0 u s' [] caps'"
  shows "s' = [] \<and> (\<exists>a b c. chip_nine u a b c \<and> caps' = [(3, c), (2, b), (1, a)])"
proof -
  note r = assms [unfolded reOld_tail_def cat_def foldr.simps o_apply id_apply]
  from r obtain a u2 c0 where a: "u = a @ u2" "rx_rel (Rep 3 (Some 3) digit) 0 a (u2 @ s') [] c0"
    and r2: "rx_rel (Seq (Opt (Chr (one_of '' *''))) (Seq (Grp 2 (Rep 3 (Some 3) digit))
        (Seq (Opt (Chr (one_of '' *''))) (Seq (Grp 3 (Rep 3 (Some 3) digit)) (Seq Eol Eps)))))
        (0 + length a) u2 s' ((1, a) # c0) caps'"
    by (rule rel_Seq_GrpE)
  from a(2) have da: "digits 3 a" and c0: "c0 = []" by (simp_all add: rel_Rep_exact digits_def)
  from r2 obtain x u3 where x: "u2 = x @ u3" "chip_gap x"
    and r3: "\<exists>p. rx_rel (Seq (Grp 2 (Rep 3 (Some 3) digit))
        (Seq (Opt (Chr (one_of '' *''))) (Seq (Grp 3 (Rep 3 (Some 3) digit)) (Seq Eol Eps))))
        p u3 s' ((1, a) # c0) caps'"
  proof (cases rule: rel_Seq_OptE)
    case 1
    then show ?thesis using that [of "[]" u2] by (auto simp: chip_gap_def)
  next
    case (2 g v)
    then show ?thesis using that [of "[g]" v] by (auto simp: chip_gap_def one_of_def)
  qed
  from r3 obtain p where r3': "rx_rel (Seq (Grp 2 (Rep 3 (Some 3) digit))
        (Seq (Opt (Chr (one_of '' *''))) (Seq (Grp 3 (Rep 3 (Some 3) digit)) (Seq Eol Eps))))
        p u3 s' ((1, a) # c0) caps'" ..
  from r3' obtain b u4 c1 where b: "u3 = b @ u4" "rx_rel (Rep 3 (Some 3) digit) p b (u4 @ s') ((1, a) # c0) c1"
    and r4: "rx_rel (Seq (Opt (Chr (one_of '' *''))) (Seq (Grp 3 (Rep 3 (Some 3) digit)) (Seq Eol Eps)))
        (p + length b) u4 s' ((2, b) # c1) caps'"
    by (rule rel_Seq_GrpE)
  from b(2) have db: "digits 3 b" and c1: "c1 = (1, a) # c0" by (simp_all add: rel_Rep_exact digits_def)
  from r4 obtain y u5 where y: "u4 = y @ u5" "chip_gap y"
    and r5: "\<exists>q. rx_rel (Seq (Grp 3 (Rep 3 (Some 3) digit)) (Seq Eol Eps)) q u5 s' ((2, b) # c1) caps'"
  proof (cases rule: rel_Seq_OptE)
    case 1
    then show ?thesis using that [of "[]" u4] by (auto simp: chip_gap_def)
  next
    case (2 g v)
    then show ?thesis using that [of "[g]" v] by (auto simp: chip_gap_def one_of_def)
  qed
  from r5 obtain q where r5': "rx_rel (Seq (Grp 3 (Rep 3 (Some 3) digit)) (Seq Eol Eps)) q u5 s' ((2, b) # c1) caps'" ..
  from r5' obtain c u6 c2 where c: "u5 = c @ u6" "rx_rel (Rep 3 (Some 3) digit) q c (u6 @ s') ((2, b) # c1) c2"
    and r6: "rx_rel (Seq Eol Eps) (q + length c) u6 s' ((3, c) # c2) caps'"
    by (rule rel_Seq_GrpE)
  from c(2) have dc: "digits 3 c" and c2: "c2 = (2, b) # c1" by (simp_all add: rel_Rep_exact digits_def)
  from r6 have e: "u6 = []" "s' = []" "caps' = (3, c) # c2" by (simp_all add: rel_Seq_Eol_Eps)
  have "u = a @ x @ b @ y @ c" using a(1) x(1) b(1) y(1) c(1) e(1) by simp
  with da db dc x(2) y(2) have "chip_nine u a b c" unfolding chip_nine_def by blast
  moreover have "caps' = [(3, c), (2, b), (1, a)]" using e(3) c2 c1 c0 by simp
  ultimately show ?thesis using e(2) by blast
qed

lemma reOld_relI:
  assumes "chip_nine u a b c"
  shows "rx_rel reOld_tail 0 u [] [] [(3, c), (2, b), (1, a)]"
proof -
  from assms obtain x y where u: "u = a @ x @ b @ y @ c" and d: "digits 3 a" "digits 3 b" "digits 3 c"
    and g: "chip_gap x" "chip_gap y"
    unfolding chip_nine_def by blast
  have rep: "rx_rel (Rep 3 (Some 3) digit) p v after cs cs" if "digits 3 v" for p v after cs
    using that by (simp add: rel_Rep_exact digits_def)
  have r6: "rx_rel (Seq Eol Eps) p [] [] cs cs" for p cs by (simp add: rel_Seq_Eol_Eps)
  have r5: "rx_rel (Seq (Grp 3 (Rep 3 (Some 3) digit)) (Seq Eol Eps)) p c [] cs ((3, c) # cs)" for p cs
    using rel_Seq_GrpI [where i = 3 and ?u2.0 = "[]", OF rep [OF d(3)] r6] by simp
  have r4: "rx_rel (Seq (Opt (Chr (one_of '' *''))) (Seq (Grp 3 (Rep 3 (Some 3) digit)) (Seq Eol Eps)))
      p (y @ c) [] cs ((3, c) # cs)" for p cs
    using g(2)
  proof (cases rule: chip_gap_cases)
    case 1
    then show ?thesis using rel_Seq_Opt_skipI [OF r5 [of p cs]] by simp
  next
    case (2 g)
    then show ?thesis using rel_Seq_Opt_takeI [of "one_of '' *''" g, OF 2(2) r5 [of "Suc p" cs]] by simp
  qed
  have r3: "rx_rel (Seq (Grp 2 (Rep 3 (Some 3) digit))
      (Seq (Opt (Chr (one_of '' *''))) (Seq (Grp 3 (Rep 3 (Some 3) digit)) (Seq Eol Eps))))
      p (b @ y @ c) [] cs ((3, c) # (2, b) # cs)" for p cs
    by (rule rel_Seq_GrpI [where i = 2, OF rep [OF d(2)] r4])
  have r2: "rx_rel (Seq (Opt (Chr (one_of '' *''))) (Seq (Grp 2 (Rep 3 (Some 3) digit))
      (Seq (Opt (Chr (one_of '' *''))) (Seq (Grp 3 (Rep 3 (Some 3) digit)) (Seq Eol Eps)))))
      p (x @ b @ y @ c) [] cs ((3, c) # (2, b) # cs)" for p cs
    using g(1)
  proof (cases rule: chip_gap_cases)
    case 1
    then show ?thesis using rel_Seq_Opt_skipI [OF r3 [of p cs]] by simp
  next
    case (2 g)
    then show ?thesis using rel_Seq_Opt_takeI [of "one_of '' *''" g, OF 2(2) r3 [of "Suc p" cs]] by simp
  qed
  have "rx_rel (Seq (Grp 1 (Rep 3 (Some 3) digit)) (Seq (Opt (Chr (one_of '' *'')))
      (Seq (Grp 2 (Rep 3 (Some 3) digit))
      (Seq (Opt (Chr (one_of '' *''))) (Seq (Grp 3 (Rep 3 (Some 3) digit)) (Seq Eol Eps))))))
      0 (a @ x @ b @ y @ c) [] [] [(3, c), (2, b), (1, a)]"
    by (rule rel_Seq_GrpI [where i = 1, OF rep [OF d(1)] r2])
  then show ?thesis unfolding u reOld_tail_def cat_def by simp
qed

lemma match_reISO: "regex_match s reISO \<noteq> None \<longleftrightarrow> chip_iso s"
proof -
  have "(\<exists>caps'. rx_rel reISO 0 s [] [] caps') \<longleftrightarrow> chip_iso s"
  proof
    assume "\<exists>caps'. rx_rel reISO 0 s [] [] caps'"
    then obtain t where "s = CHR ''9'' # t" "length t = 14" "list_all digit t"
      by (auto simp: reISO_def cat_def rx_rel.simps is_char_def)
    then show "chip_iso s" by (simp add: chip_iso_def digits_def digit_def)
  next
    assume "chip_iso s"
    then obtain t where "s = CHR ''9'' # t" "length t = 14" "list_all digit t"
      by (cases s) (auto simp: chip_iso_def digits_def)
    then show "\<exists>caps'. rx_rel reISO 0 s [] [] caps'"
      by (auto simp: reISO_def cat_def rx_rel.simps is_char_def)
  qed
  then show ?thesis by (simp add: regex_match_None)
qed

lemma match_rePumpkin: "regex_match s rePumpkin \<noteq> None \<longleftrightarrow> chip_202 s"
proof -
  have "(\<exists>caps'. rx_rel rePumpkin 0 s [] [] caps') \<longleftrightarrow> chip_202 s"
  proof
    assume "\<exists>caps'. rx_rel rePumpkin 0 s [] [] caps'"
    then obtain t where "s = ''202'' @ t" "length t = 12" "list_all digit t"
      by (auto simp: rePumpkin_def cat_def lit_def rx_rel.simps is_char_def)
    then show "chip_202 s" by (simp add: chip_202_def digits_def digit_def)
  next
    assume "chip_202 s"
    then have t: "take 3 s = ''202''" and l: "length (drop 3 s) = 12"
      and dd: "list_all digit (drop 3 s)"
      by (auto simp: chip_202_def digits_def list_all_iff dest: in_set_dropD)
    have e: "''202'' @ drop 3 s = s"
      using append_take_drop_id [of 3 s] unfolding t .
    have "\<exists>caps'. rx_rel rePumpkin 0 (''202'' @ drop 3 s) [] [] caps'"
      using l dd by (auto simp: rePumpkin_def cat_def lit_def rx_rel.simps is_char_def)
    then show "\<exists>caps'. rx_rel rePumpkin 0 s [] [] caps'"
      unfolding e .
  qed
  then show ?thesis by (simp add: regex_match_None)
qed

lemma match_reFDXA: "regex_match s reFDXA \<noteq> None \<longleftrightarrow> chip_hex s"
proof -
  have "(\<exists>caps'. rx_rel reFDXA 0 s [] [] caps') \<longleftrightarrow> chip_hex s"
    by (auto simp: reFDXA_def cat_def rx_rel.simps chip_hex_def)
  then show ?thesis by (simp add: regex_match_None)
qed

lemma reOld_eq: "reOld = Seq Bol reOld_tail"
  by (simp add: reOld_def reOld_tail_def cat_def)

lemma search_reOld_None: "regex_search s reOld = None \<longleftrightarrow> \<not> (\<exists>a b c. chip_nine s a b c)"
proof -
  have "(\<exists>u s' caps'. s = u @ s' \<and> rx_rel reOld_tail 0 u s' [] caps') \<longleftrightarrow> (\<exists>a b c. chip_nine s a b c)"
  proof
    assume "\<exists>u s' caps'. s = u @ s' \<and> rx_rel reOld_tail 0 u s' [] caps'"
    then obtain u s' caps' where "s = u @ s'" "rx_rel reOld_tail 0 u s' [] caps'" by blast
    with reOld_relD [of u s' caps'] show "\<exists>a b c. chip_nine s a b c" by auto
  next
    assume "\<exists>a b c. chip_nine s a b c"
    then obtain a b c where "chip_nine s a b c" by blast
    from reOld_relI [OF this] have "s = s @ [] \<and> rx_rel reOld_tail 0 s [] [] [(3, c), (2, b), (1, a)]"
      by simp
    then show "\<exists>u s' caps'. s = u @ s' \<and> rx_rel reOld_tail 0 u s' [] caps'" by blast
  qed
  then show ?thesis unfolding reOld_eq regex_search_None by simp
qed

lemma chip_nine_unique:
  assumes "chip_nine s a b c" and "chip_nine s a' b' c'"
  shows "a @ b @ c = a' @ b' @ c'"
proof -
  have f: "filter digit s = a @ b @ c" if "chip_nine s a b c" for a b c
  proof -
    from that obtain x y where s: "s = a @ x @ b @ y @ c" and d: "digits 3 a" "digits 3 b" "digits 3 c"
      and g: "chip_gap x" "chip_gap y"
      unfolding chip_nine_def by blast
    from g have "filter digit x = []" "filter digit y = []"
      by (auto simp: chip_gap_def digit_def)
    moreover from d have "filter digit a = a" "filter digit b = b" "filter digit c = c"
      by (auto simp: digits_def list_all_iff)
    ultimately show ?thesis unfolding s by simp
  qed
  from f [OF assms(1)] f [OF assms(2)] show ?thesis by simp
qed

lemma search_reOld_Some:
  assumes "regex_search s reOld = Some caps'" and "chip_nine s a b c"
  shows "str caps' 1 @ str caps' 2 @ str caps' 3 = a @ b @ c"
proof -
  from assms(1) obtain u s' where "s = u @ s'" "rx_rel reOld_tail 0 u s' [] caps'"
    unfolding reOld_eq by (auto dest: regex_search_Some)
  with reOld_relD [of u s' caps'] obtain a' b' c' where n: "chip_nine s a' b' c'"
    and c: "caps' = [(3, c'), (2, b'), (1, a')]" by auto
  from c have "str caps' 1 @ str caps' 2 @ str caps' 3 = a' @ b' @ c'" by (simp add: str_def)
  with chip_nine_unique [OF n assms(2)] show ?thesis by simp
qed

lemma chip_nine_not_others:
  assumes "chip_nine s a b c"
  shows "\<not> chip_iso s \<and> \<not> chip_202 s \<and> \<not> chip_hex s"
proof -
  from assms obtain x y where s: "s = a @ x @ b @ y @ c" and d: "digits 3 a" "digits 3 b" "digits 3 c"
    and g: "chip_gap x" "chip_gap y"
    unfolding chip_nine_def by blast
  have l: "length s = 9 + length x + length y"
    using d by (simp add: s digits_def)
  from g have "length x \<le> 1" "length y \<le> 1" by (auto simp: chip_gap_def)
  with l have "length s \<noteq> 15" by simp
  then have 1: "\<not> chip_iso s" "\<not> chip_202 s" by (simp_all add: chip_iso_def chip_202_def digits_def)
  have "\<not> chip_hex s"
  proof
    assume h: "chip_hex s"
    then have "length s = 10" by (simp add: chip_hex_def)
    with l have ne: "x \<noteq> [] \<or> y \<noteq> []" by auto
    have nx: "\<not> xdigit (CHR '' '')" "\<not> xdigit (CHR ''*'')" by (simp_all add: xdigit_def)
    from h have all: "\<forall>q\<in>set s. xdigit q" by (simp add: chip_hex_def list_all_iff)
    have sx: "set x \<subseteq> set s" "set y \<subseteq> set s" by (auto simp: s)
    from g ne have "CHR '' '' \<in> set x \<union> set y \<or> CHR ''*'' \<in> set x \<union> set y"
      by (auto simp: chip_gap_def)
    with sx all nx show False by blast
  qed
  with 1 show ?thesis by simp
qed

lemma VerifyMicrochip_char:
  "(fst (VerifyMicrochip s fMessage w)
      \<longleftrightarrow> chip_iso s \<or> chip_202 s \<or> chip_hex s \<or> (\<exists>a b c. chip_nine s a b c)) \<and>
   (\<forall>a b c. chip_nine s a b c \<longrightarrow> fst (snd (VerifyMicrochip s fMessage w)) = a @ b @ c) \<and>
   ((\<forall>a b c. \<not> chip_nine s a b c) \<longrightarrow> fst (snd (VerifyMicrochip s fMessage w)) = s)"
proof (cases "s = []")
  case True
  have "\<not> chip_iso []" "\<not> chip_202 []" "\<not> chip_hex []" "\<And>a b c. \<not> chip_nine [] a b c"
    by (auto simp: chip_iso_def chip_202_def chip_hex_def chip_nine_def digits_def)
  with True show ?thesis by (simp add: VerifyMicrochip_def)
next
  case ne: False
  show ?thesis
  proof (cases "\<exists>a b c. chip_nine s a b c")
    case True
    then obtain a b c where n: "chip_nine s a b c" by blast
    from chip_nine_not_others [OF n] have o: "\<not> chip_iso s" "\<not> chip_202 s" "\<not> chip_hex s" by simp_all
    from True obtain caps' where c: "regex_search s reOld = Some caps'"
      using search_reOld_None [of s] by (cases "regex_search s reOld") auto
    have v: "VerifyMicrochip s fMessage w = (True, str caps' 1 @ str caps' 2 @ str caps' 3, w)"
      using ne o c match_reISO [of s] match_rePumpkin [of s] match_reFDXA [of s]
      by (simp add: VerifyMicrochip_def)
    have "fst (snd (VerifyMicrochip s fMessage w)) = a' @ b' @ c'" if "chip_nine s a' b' c'" for a' b' c'
      using search_reOld_Some [OF c that] v by simp
    with v True show ?thesis by auto
  next
    case False
    then have c: "regex_search s reOld = None" by (simp add: search_reOld_None)
    show ?thesis
      using ne c False match_reISO [of s] match_rePumpkin [of s] match_reFDXA [of s]
      by (auto simp: VerifyMicrochip_def)
  qed
qed

lemma VerifyMicrochip_state:
  "objs (snd (snd (VerifyMicrochip s fMessage w))) = objs w
   \<and> baddogs (snd (snd (VerifyMicrochip s fMessage w))) = baddogs w"
  by (simp add: VerifyMicrochip_def state_simps split: option.splits)

text \<open>
  Claim C4 says that the verification succeeds exactly for four forms, the last being nine
  digits, plain or as three groups of three with a space or asterisk between the groups.  The
  string "123456 789" has none of these forms (one gap is filled, the other is not), and the
  verification accepts it and rewrites it to "123456789".
\<close>

theorem VerifyMicrochip_accepts_one_gap:
  "fst (VerifyMicrochip ''123456 789'' False two_reports) \<and>
   fst (snd (VerifyMicrochip ''123456 789'' False two_reports)) = ''123456789'' \<and>
   \<not> (chip_iso ''123456 789'' \<or> chip_202 ''123456 789'' \<or> chip_hex ''123456 789''
      \<or> chip_nine_claimed ''123456 789'')"
proof -
  have n: "chip_nine ''123456 789'' ''123'' ''456'' ''789''"
    unfolding chip_nine_def
    by (rule exI [of _ "[]"], rule exI [of _ "'' ''"]) (simp add: digits_def digit_def chip_gap_def)
  from chip_nine_not_others [OF n]
  have o: "\<not> (chip_iso ''123456 789'' \<or> chip_202 ''123456 789'' \<or> chip_hex ''123456 789'')"
    by simp
  have c: "\<not> chip_nine_claimed ''123456 789''"
  proof
    assume "chip_nine_claimed ''123456 789''"
    then consider "digits 9 ''123456 789''"
      | a x b y c where "''123456 789'' = a @ [x] @ b @ [y] @ c" "digits 3 a" "digits 3 b" "digits 3 c"
      unfolding chip_nine_claimed_def by blast
    then show False
    proof cases
      case 1
      then show False by (simp add: digits_def)
    next
      case 2
      from 2(1) have "length ''123456 789'' = length (a @ [x] @ b @ [y] @ c)" by (rule arg_cong)
      with 2(2-4) show False by (simp add: digits_def)
    qed
  qed
  from VerifyMicrochip_char [of "''123456 789''" False two_reports] n
  have "fst (VerifyMicrochip ''123456 789'' False two_reports) \<and>
    fst (snd (VerifyMicrochip ''123456 789'' False two_reports)) = ''123'' @ ''456'' @ ''789''"
    by blast
  with o c show ?thesis by simp
qed

text \<open>
  Claim C4, amended.  For every string the verification of a microchip number succeeds exactly
  for: fifteen decimal digits of which the first is 9; 202 followed by twelve decimal digits;
  ten hexadecimal digits; or three groups of three decimal digits where each of the two gaps
  between the groups holds nothing, one space or one asterisk, whatever the other gap holds.
  In the last case the string is rewritten to the nine digits; in every other case, and when
  the verification fails, the string is left as it is.  The records and the error report are
  not touched.
\<close>

theorem VerifyMicrochip_forms:
  "(fst (VerifyMicrochip s fMessage w)
      \<longleftrightarrow> chip_iso s \<or> chip_202 s \<or> chip_hex s \<or> (\<exists>a b c. chip_nine s a b c)) \<and>
   (\<forall>a b c. chip_nine s a b c \<longrightarrow> fst (snd (VerifyMicrochip s fMessage w)) = a @ b @ c) \<and>
   ((\<forall>a b c. \<not> chip_nine s a b c) \<longrightarrow> fst (snd (VerifyMicrochip s fMessage w)) = s) \<and>
   objs (snd (snd (VerifyMicrochip s fMessage w))) = objs w \<and>
   baddogs (snd (snd (VerifyMicrochip s fMessage w))) = baddogs w"
  using VerifyMicrochip_char [of s fMessage w] VerifyMicrochip_state [of s fMessage w] by simp

text \<open>C4 on "123 456 789", on "981023456789012" and on "12345".\<close>

theorem VerifyMicrochip_forms_witness:
  "fst (VerifyMicrochip ''123 456 789'' False two_reports) \<and>
   fst (snd (VerifyMicrochip ''123 456 789'' False two_reports)) = ''123456789'' \<and>
   fst (VerifyMicrochip ''981023456789012'' False two_reports) \<and>
   fst (snd (VerifyMicrochip ''981023456789012'' False two_reports)) = ''981023456789012'' \<and>
   \<not> fst (VerifyMicrochip ''12345'' False two_reports) \<and>
   fst (snd (VerifyMicrochip ''12345'' False two_reports)) = ''12345''"
proof -
  have n: "chip_nine ''123 456 789'' ''123'' ''456'' ''789''"
    unfolding chip_nine_def
    by (rule exI [of _ "'' ''"], rule exI [of _ "'' ''"]) (simp add: digits_def digit_def chip_gap_def)
  have i: "chip_iso ''981023456789012''"
    by (simp add: chip_iso_def digits_def digit_def)
  have ni: "\<not> chip_nine ''981023456789012'' a b c" for a b c
    using chip_nine_not_others [of "''981023456789012''" a b c] i by blast
  have s: "\<not> chip_iso ''12345''" "\<not> chip_202 ''12345''" "\<not> chip_hex ''12345''"
    by (simp_all add: chip_iso_def chip_202_def chip_hex_def digits_def)
  have ns: "\<not> chip_nine ''12345'' a b c" for a b c
  proof
    assume "chip_nine ''12345'' a b c"
    then obtain x y where e: "''12345'' = a @ x @ b @ y @ c" and d: "digits 3 a" "digits 3 b" "digits 3 c"
      unfolding chip_nine_def by blast
    from e have "length ''12345'' = length (a @ x @ b @ y @ c)" by (rule arg_cong)
    with d show False by (simp add: digits_def)
  qed
  from VerifyMicrochip_forms [of "''123 456 789''" False two_reports] n
  have 1: "fst (VerifyMicrochip ''123 456 789'' False two_reports) \<and>
    fst (snd (VerifyMicrochip ''123 456 789'' False two_reports)) = ''123'' @ ''456'' @ ''789''"
    by blast
  from VerifyMicrochip_forms [of "''981023456789012''" False two_reports] i ni
  have 2: "fst (VerifyMicrochip ''981023456789012'' False two_reports) \<and>
    fst (snd (VerifyMicrochip ''981023456789012'' False two_reports)) = ''981023456789012''"
    by blast
  from VerifyMicrochip_forms [of "''12345''" False two_reports] s ns
  have 3: "\<not> fst (VerifyMicrochip ''12345'' False two_reports) \<and>
    fst (snd (VerifyMicrochip ''12345'' False two_reports)) = ''12345''"
    by blast
  from 1 2 3 show ?thesis by simp
qed

section \<open>The phone number\<close>

lemma rel_Seq_OptE':
  assumes "rx_rel (Seq (Opt (Chr P)) r) pos u after caps caps'"
  obtains x u2 p where "u = x @ u2" "x = [] \<or> (\<exists>g. x = [g] \<and> P g)" "rx_rel r p u2 after caps caps'"
  using assms
proof (cases rule: rel_Seq_OptE)
  case 1
  then show ?thesis using that [of "[]" u pos] by simp
next
  case (2 g v)
  then show ?thesis using that [of "[g]" v "Suc pos"] by simp
qed

lemma rel_Seq_OptI':
  assumes "x = [] \<or> (\<exists>g. x = [g] \<and> P g)" and "\<And>p. rx_rel r p u2 after caps caps'"
  shows "rx_rel (Seq (Opt (Chr P)) r) pos (x @ u2) after caps caps'"
  using assms(1)
proof
  assume "x = []"
  then show ?thesis using rel_Seq_Opt_skipI [OF assms(2) [of pos]] by simp
next
  assume "\<exists>g. x = [g] \<and> P g"
  then obtain g where g: "x = [g]" "P g" by blast
  from rel_Seq_Opt_takeI [of P g, OF g(2) assms(2) [of "Suc pos"]] g(1) show ?thesis by simp
qed

lemma cat_Cons: "cat (r # rs) = Seq r (cat rs)"
  by (simp add: cat_def)

lemma rel_cat_OptE:
  assumes "rx_rel (cat (Opt (Chr P) # rs)) pos u after caps caps'"
  obtains x u2 p where "u = x @ u2" "x = [] \<or> (\<exists>g. x = [g] \<and> P g)"
    "rx_rel (cat rs) p u2 after caps caps'"
  using assms unfolding cat_Cons by (rule rel_Seq_OptE')

lemma rel_cat_OptI:
  assumes "x = [] \<or> (\<exists>g. x = [g] \<and> P g)" and "\<And>p. rx_rel (cat rs) p u2 after caps caps'"
  shows "rx_rel (cat (Opt (Chr P) # rs)) pos (x @ u2) after caps caps'"
  unfolding cat_Cons using assms by (rule rel_Seq_OptI')

lemma rel_cat_GrpE:
  assumes "rx_rel (cat (Grp i r1 # rs)) pos u after caps caps'"
  obtains a u2 caps0 p where "u = a @ u2" "rx_rel r1 pos a (u2 @ after) caps caps0"
    "rx_rel (cat rs) p u2 after ((i, a) # caps0) caps'"
  using assms unfolding cat_Cons by (rule rel_Seq_GrpE)

lemma rel_cat_GrpI:
  assumes "rx_rel r1 pos a (u2 @ after) caps caps0"
    and "\<And>p. rx_rel (cat rs) p u2 after ((i, a) # caps0) caps'"
  shows "rx_rel (cat (Grp i r1 # rs)) pos (a @ u2) after caps caps'"
  unfolding cat_Cons using assms(1) assms(2) [of "pos + length a"] by (rule rel_Seq_GrpI)

lemma rel_cat_StarE:
  assumes "rx_rel (cat (Rep 0 None P # rs)) pos u after caps caps'"
  obtains a u2 p where "u = a @ u2" "list_all P a" "rx_rel (cat rs) p u2 after caps caps'"
  using assms unfolding cat_Cons by (rule rel_Seq_RepE)

lemma rel_cat_StarI:
  assumes "list_all P a" and "\<And>p. rx_rel (cat rs) p u2 after caps caps'"
  shows "rx_rel (cat (Rep 0 None P # rs)) pos (a @ u2) after caps caps'"
  unfolding cat_Cons using assms(1) assms(2) [of "pos + length a"]
  by (intro rel_Seq_RepI) simp_all

lemma rel_cat_Eol: "rx_rel (cat [Eol]) pos u after caps caps' \<longleftrightarrow> u = [] \<and> after = [] \<and> caps' = caps"
  by (simp add: cat_def rel_Seq_Eol_Eps)

lemma rel_digits3:
  "rx_rel (cat [Chr digit, Chr digit, Chr digit]) pos a after caps caps' \<longleftrightarrow> digits 3 a \<and> caps' = caps"
proof
  assume "rx_rel (cat [Chr digit, Chr digit, Chr digit]) pos a after caps caps'"
  then show "digits 3 a \<and> caps' = caps"
    by (auto simp: cat_def rx_rel.simps digits_def)
next
  assume a: "digits 3 a \<and> caps' = caps"
  then obtain c1 c2 c3 where e: "a = [c1, c2, c3]"
    by (auto simp: digits_def length_Suc_conv numeral_3_eq_3)
  with a have d: "digit c1" "digit c2" "digit c3" by (simp_all add: digits_def)
  have "rx_rel (Seq (Chr digit) (Seq (Chr digit) (Seq (Chr digit) Eps))) pos [c1, c2, c3] after caps caps"
    by (intro rel_Seq_ChrI d) (simp add: rx_rel.simps)
  with a e show "rx_rel (cat [Chr digit, Chr digit, Chr digit]) pos a after caps caps'"
    by (simp add: cat_def)
qed

lemma rel_digits4:
  "rx_rel (cat [Chr digit, Chr digit, Chr digit, Chr digit]) pos a after caps caps'
   \<longleftrightarrow> digits 4 a \<and> caps' = caps"
proof
  assume "rx_rel (cat [Chr digit, Chr digit, Chr digit, Chr digit]) pos a after caps caps'"
  then show "digits 4 a \<and> caps' = caps"
    by (auto simp: cat_def rx_rel.simps digits_def)
next
  assume a: "digits 4 a \<and> caps' = caps"
  then obtain c1 c2 c3 c4 where e: "a = [c1, c2, c3, c4]"
    by (auto simp: digits_def length_Suc_conv eval_nat_numeral)
  with a have d: "digit c1" "digit c2" "digit c3" "digit c4" by (simp_all add: digits_def)
  have "rx_rel (Seq (Chr digit) (Seq (Chr digit) (Seq (Chr digit) (Seq (Chr digit) Eps))))
      pos [c1, c2, c3, c4] after caps caps"
    by (intro rel_Seq_ChrI d) (simp add: rx_rel.simps)
  with a e show "rx_rel (cat [Chr digit, Chr digit, Chr digit, Chr digit]) pos a after caps caps'"
    by (simp add: cat_def)
qed

lemma rePhone_relD:
  assumes "rx_rel rePhone_tail 0 u s' [] caps'"
  shows "s' = [] \<and> (\<exists>A B C. phone_form u A B C \<and> caps' = [(3, C), (2, B), (1, A)])"
proof -
  let ?D3 = "cat [Chr digit, Chr digit, Chr digit]"
  let ?D4 = "cat [Chr digit, Chr digit, Chr digit, Chr digit]"
  let ?O1 = "Opt (Chr (is_char (CHR ''1'')))" and ?Os = "Opt (Chr space)"
  let ?Op = "Opt (Chr (is_char (CHR ''('')))" and ?Oc = "Opt (Chr (is_char (CHR '')'')))"
  let ?R1 = "Rep 0 None phone_sep1" and ?R2 = "Rep 0 None phone_sep2"
  note r = assms [unfolded rePhone_tail_def]
  from r obtain p1 u1 q1 where p1: "u = p1 @ u1" "p1 = [] \<or> (\<exists>g. p1 = [g] \<and> is_char (CHR ''+'') g)"
    and r1: "rx_rel (cat [?O1, ?Os, ?Op, Grp 1 ?D3, ?Oc, ?R1, Grp 2 ?D3, ?R2, Grp 3 ?D4, Eol])
      q1 u1 s' [] caps'"
    by (rule rel_cat_OptE)
  from r1 obtain p2 u2 q2 where p2: "u1 = p2 @ u2" "p2 = [] \<or> (\<exists>g. p2 = [g] \<and> is_char (CHR ''1'') g)"
    and r2: "rx_rel (cat [?Os, ?Op, Grp 1 ?D3, ?Oc, ?R1, Grp 2 ?D3, ?R2, Grp 3 ?D4, Eol])
      q2 u2 s' [] caps'"
    by (rule rel_cat_OptE)
  from r2 obtain p3 u3 q3 where p3: "u2 = p3 @ u3" "p3 = [] \<or> (\<exists>g. p3 = [g] \<and> space g)"
    and r3: "rx_rel (cat [?Op, Grp 1 ?D3, ?Oc, ?R1, Grp 2 ?D3, ?R2, Grp 3 ?D4, Eol])
      q3 u3 s' [] caps'"
    by (rule rel_cat_OptE)
  from r3 obtain p4 u4 q4 where p4: "u3 = p4 @ u4" "p4 = [] \<or> (\<exists>g. p4 = [g] \<and> is_char (CHR ''('') g)"
    and r4: "rx_rel (cat [Grp 1 ?D3, ?Oc, ?R1, Grp 2 ?D3, ?R2, Grp 3 ?D4, Eol]) q4 u4 s' [] caps'"
    by (rule rel_cat_OptE)
  from r4 obtain A u5 c0 q5 where A: "u4 = A @ u5" "rx_rel ?D3 q4 A (u5 @ s') [] c0"
    and r5: "rx_rel (cat [?Oc, ?R1, Grp 2 ?D3, ?R2, Grp 3 ?D4, Eol]) q5 u5 s' ((1, A) # c0) caps'"
    by (rule rel_cat_GrpE)
  from A(2) have dA: "digits 3 A" and c0: "c0 = []" by (simp_all add: rel_digits3)
  from r5 obtain p5 u6 q6 where p5: "u5 = p5 @ u6" "p5 = [] \<or> (\<exists>g. p5 = [g] \<and> is_char (CHR '')'') g)"
    and r6: "rx_rel (cat [?R1, Grp 2 ?D3, ?R2, Grp 3 ?D4, Eol]) q6 u6 s' ((1, A) # c0) caps'"
    by (rule rel_cat_OptE)
  from r6 obtain S1 u7 q7 where S1: "u6 = S1 @ u7" "list_all phone_sep1 S1"
    and r7: "rx_rel (cat [Grp 2 ?D3, ?R2, Grp 3 ?D4, Eol]) q7 u7 s' ((1, A) # c0) caps'"
    by (rule rel_cat_StarE)
  from r7 obtain B u8 c1 q8 where B: "u7 = B @ u8" "rx_rel ?D3 q7 B (u8 @ s') ((1, A) # c0) c1"
    and r8: "rx_rel (cat [?R2, Grp 3 ?D4, Eol]) q8 u8 s' ((2, B) # c1) caps'"
    by (rule rel_cat_GrpE)
  from B(2) have dB: "digits 3 B" and c1: "c1 = (1, A) # c0" by (simp_all add: rel_digits3)
  from r8 obtain S2 u9 q9 where S2: "u8 = S2 @ u9" "list_all phone_sep2 S2"
    and r9: "rx_rel (cat [Grp 3 ?D4, Eol]) q9 u9 s' ((2, B) # c1) caps'"
    by (rule rel_cat_StarE)
  from r9 obtain C u10 c2 q10 where C: "u9 = C @ u10" "rx_rel ?D4 q9 C (u10 @ s') ((2, B) # c1) c2"
    and r10: "rx_rel (cat [Eol]) q10 u10 s' ((3, C) # c2) caps'"
    by (rule rel_cat_GrpE)
  from C(2) have dC: "digits 4 C" and c2: "c2 = (2, B) # c1" by (simp_all add: rel_digits4)
  from r10 have e: "u10 = []" "s' = []" "caps' = (3, C) # c2" by (simp_all add: rel_cat_Eol)
  have u: "u = p1 @ p2 @ p3 @ p4 @ A @ p5 @ S1 @ B @ S2 @ C"
    using p1(1) p2(1) p3(1) p4(1) A(1) p5(1) S1(1) B(1) S2(1) C(1) e(1) by simp
  have q: "p1 = [] \<or> p1 = ''+''" "p2 = [] \<or> p2 = ''1''" "p4 = [] \<or> p4 = ''(''" "p5 = [] \<or> p5 = '')''"
    using p1(2) p2(2) p4(2) p5(2) by (auto simp: is_char_def)
  have "phone_form u A B C"
    unfolding phone_form_def using u q p3(2) dA dB dC S1(2) S2(2) by blast
  moreover have "caps' = [(3, C), (2, B), (1, A)]" using e(3) c2 c1 c0 by simp
  ultimately show ?thesis using e(2) by blast
qed

lemma rePhone_relI:
  assumes "phone_form u A B C"
  shows "rx_rel rePhone_tail 0 u [] [] [(3, C), (2, B), (1, A)]"
proof -
  let ?D3 = "cat [Chr digit, Chr digit, Chr digit]"
  let ?D4 = "cat [Chr digit, Chr digit, Chr digit, Chr digit]"
  let ?O0 = "Opt (Chr (is_char (CHR ''+'')))"
  let ?O1 = "Opt (Chr (is_char (CHR ''1'')))" and ?Os = "Opt (Chr space)"
  let ?Op = "Opt (Chr (is_char (CHR ''('')))" and ?Oc = "Opt (Chr (is_char (CHR '')'')))"
  let ?R1 = "Rep 0 None phone_sep1" and ?R2 = "Rep 0 None phone_sep2"
  from assms obtain p1 p2 p3 p4 p5 S1 S2 where
    u: "u = p1 @ p2 @ p3 @ p4 @ A @ p5 @ S1 @ B @ S2 @ C"
    and q: "p1 = [] \<or> p1 = ''+''" "p2 = [] \<or> p2 = ''1''" "p3 = [] \<or> (\<exists>g. p3 = [g] \<and> space g)"
       "p4 = [] \<or> p4 = ''(''" "p5 = [] \<or> p5 = '')''"
    and d: "digits 3 A" "digits 3 B" "digits 4 C"
    and S: "list_all phone_sep1 S1" "list_all phone_sep2 S2"
    unfolding phone_form_def by blast
  from q have q': "p1 = [] \<or> (\<exists>g. p1 = [g] \<and> is_char (CHR ''+'') g)"
    "p2 = [] \<or> (\<exists>g. p2 = [g] \<and> is_char (CHR ''1'') g)"
    "p4 = [] \<or> (\<exists>g. p4 = [g] \<and> is_char (CHR ''('') g)"
    "p5 = [] \<or> (\<exists>g. p5 = [g] \<and> is_char (CHR '')'') g)"
    by (auto simp: is_char_def)
  have r10: "rx_rel (cat [Eol]) p [] [] cs cs" for p cs by (simp add: rel_cat_Eol)
  have r9: "rx_rel (cat [Grp 3 ?D4, Eol]) p C [] cs ((3, C) # cs)" for p cs
    using rel_cat_GrpI [where i = 3 and a = C and ?u2.0 = "[]" and after = "[]" and ?r1.0 = ?D4
        and rs = "[Eol]" and caps = cs and ?caps0.0 = cs and pos = p and caps' = "(3, C) # cs"]
      d(3) r10 by (simp add: rel_digits4)
  have r8: "rx_rel (cat [?R2, Grp 3 ?D4, Eol]) p (S2 @ C) [] cs ((3, C) # cs)" for p cs
    by (rule rel_cat_StarI [OF S(2) r9])
  have r7: "rx_rel (cat [Grp 2 ?D3, ?R2, Grp 3 ?D4, Eol]) p (B @ S2 @ C) [] cs ((3, C) # (2, B) # cs)" for p cs
    by (rule rel_cat_GrpI [where ?caps0.0 = cs]) (simp add: rel_digits3 d, rule r8)
  have r6: "rx_rel (cat [?R1, Grp 2 ?D3, ?R2, Grp 3 ?D4, Eol]) p (S1 @ B @ S2 @ C) [] cs
      ((3, C) # (2, B) # cs)" for p cs
    by (rule rel_cat_StarI [OF S(1) r7])
  have r5: "rx_rel (cat [?Oc, ?R1, Grp 2 ?D3, ?R2, Grp 3 ?D4, Eol]) p (p5 @ S1 @ B @ S2 @ C) [] cs
      ((3, C) # (2, B) # cs)" for p cs
    by (rule rel_cat_OptI [OF q'(4) r6])
  have r4: "rx_rel (cat [Grp 1 ?D3, ?Oc, ?R1, Grp 2 ?D3, ?R2, Grp 3 ?D4, Eol]) p
      (A @ p5 @ S1 @ B @ S2 @ C) [] cs ((3, C) # (2, B) # (1, A) # cs)" for p cs
    by (rule rel_cat_GrpI [where ?caps0.0 = cs]) (simp add: rel_digits3 d, rule r5)
  have r3: "rx_rel (cat [?Op, Grp 1 ?D3, ?Oc, ?R1, Grp 2 ?D3, ?R2, Grp 3 ?D4, Eol]) p
      (p4 @ A @ p5 @ S1 @ B @ S2 @ C) [] cs ((3, C) # (2, B) # (1, A) # cs)" for p cs
    by (rule rel_cat_OptI [OF q'(3) r4])
  have r2: "rx_rel (cat [?Os, ?Op, Grp 1 ?D3, ?Oc, ?R1, Grp 2 ?D3, ?R2, Grp 3 ?D4, Eol]) p
      (p3 @ p4 @ A @ p5 @ S1 @ B @ S2 @ C) [] cs ((3, C) # (2, B) # (1, A) # cs)" for p cs
    by (rule rel_cat_OptI [OF q(3) r3])
  have r1: "rx_rel (cat [?O1, ?Os, ?Op, Grp 1 ?D3, ?Oc, ?R1, Grp 2 ?D3, ?R2, Grp 3 ?D4, Eol]) p
      (p2 @ p3 @ p4 @ A @ p5 @ S1 @ B @ S2 @ C) [] cs ((3, C) # (2, B) # (1, A) # cs)" for p cs
    by (rule rel_cat_OptI [OF q'(2) r2])
  have "rx_rel (cat [?O0, ?O1, ?Os, ?Op, Grp 1 ?D3, ?Oc, ?R1, Grp 2 ?D3, ?R2, Grp 3 ?D4, Eol]) 0
      (p1 @ p2 @ p3 @ p4 @ A @ p5 @ S1 @ B @ S2 @ C) [] [] [(3, C), (2, B), (1, A)]"
    by (rule rel_cat_OptI [OF q'(1) r1])
  then show ?thesis unfolding u rePhone_tail_def .
qed

lemma rePhone_eq: "rePhone = Seq Bol rePhone_tail"
  by (simp add: rePhone_def rePhone_tail_def cat_def)

lemma digit_cases:
  "digit c \<longleftrightarrow> c = CHR ''0'' \<or> c = CHR ''1'' \<or> c = CHR ''2'' \<or> c = CHR ''3'' \<or> c = CHR ''4''
     \<or> c = CHR ''5'' \<or> c = CHR ''6'' \<or> c = CHR ''7'' \<or> c = CHR ''8'' \<or> c = CHR ''9''"
  by (simp add: digit_def)

lemma not_digit_chars:
  "\<not> digit (CHR '' '')" "\<not> digit (CHR 0x09)" "\<not> digit (CHR 0x0A)" "\<not> digit (CHR 0x0B)"
  "\<not> digit (CHR 0x0C)" "\<not> digit (CHR 0x0D)" "\<not> digit (CHR ''-'')" "\<not> digit (CHR ''/'')"
  "\<not> digit (CHR ''*'')" "\<not> digit (CHR '','')" "\<not> digit (CHR ''.'')" "\<not> digit (CHR ''='')"
  "\<not> digit (CHR ''+'')" "\<not> digit (CHR ''('')" "\<not> digit (CHR '')'')"
  by (simp_all add: digit_def)

lemma space_not_digit: "space c \<Longrightarrow> \<not> digit c"
  unfolding space_def using not_digit_chars by (elim disjE | simp)+

lemma sep1_not_digit: "phone_sep1 c \<Longrightarrow> \<not> digit c"
  unfolding phone_sep1_def one_of_def using not_digit_chars space_not_digit [of c]
  by (elim disjE | simp)+

lemma sep2_not_digit: "phone_sep2 c \<Longrightarrow> \<not> digit c"
  unfolding phone_sep2_def one_of_def using not_digit_chars space_not_digit [of c]
  by (elim disjE | simp)+

lemma filter_digit_none:
  assumes "list_all P S" and "\<And>c. P c \<Longrightarrow> \<not> digit c"
  shows "filter digit S = []"
  using assms by (induction S) simp_all

lemma filter_digit_all: "list_all digit A \<Longrightarrow> filter digit A = A"
  by (induction A) simp_all

lemma phone_form_digits:
  assumes "phone_form s A B C"
  shows "A @ B @ C = drop (length (filter digit s) - 10) (filter digit s)"
proof -
  from assms obtain p1 p2 p3 p4 p5 S1 S2 where
    u: "s = p1 @ p2 @ p3 @ p4 @ A @ p5 @ S1 @ B @ S2 @ C"
    and q: "p1 = [] \<or> p1 = ''+''" "p2 = [] \<or> p2 = ''1''" "p3 = [] \<or> (\<exists>g. p3 = [g] \<and> space g)"
       "p4 = [] \<or> p4 = ''(''" "p5 = [] \<or> p5 = '')''"
    and d: "digits 3 A" "digits 3 B" "digits 4 C"
    and S: "list_all phone_sep1 S1" "list_all phone_sep2 S2"
    unfolding phone_form_def by blast
  have f1: "filter digit p1 = []" using q(1) not_digit_chars by auto
  have f2: "filter digit p2 = p2" using q(2) by (auto simp: digit_def)
  have f3: "filter digit p3 = []" using q(3) space_not_digit by auto
  have f4: "filter digit p4 = []" using q(4) not_digit_chars by auto
  have f5: "filter digit p5 = []" using q(5) not_digit_chars by auto
  have f6: "filter digit S1 = []" using S(1) sep1_not_digit by (rule filter_digit_none)
  have f7: "filter digit S2 = []" using S(2) sep2_not_digit by (rule filter_digit_none)
  from d have g: "filter digit A = A" "filter digit B = B" "filter digit C = C"
    by (simp_all add: digits_def filter_digit_all)
  from d have l: "length A + length B + length C = 10" by (simp add: digits_def)
  have e: "filter digit s = p2 @ A @ B @ C"
    unfolding u by (simp add: f1 f2 f3 f4 f5 f6 f7 g)
  from l have "length (p2 @ A @ B @ C) - 10 = length p2" by simp
  then show ?thesis unfolding e by simp
qed

lemma VerifyPhone_char:
  assumes "sPhone \<noteq> []" and "sPhone \<noteq> ''none''"
  shows "(fst (VerifyPhone this sWhich sPhone fQuiet w) \<longleftrightarrow> (\<exists>A B C. phone_form sPhone A B C)) \<and>
    (\<forall>A B C. phone_form sPhone A B C \<longrightarrow>
        VerifyPhone this sWhich sPhone fQuiet w = (True, A @ B @ C, w)) \<and>
    ((\<forall>A B C. \<not> phone_form sPhone A B C) \<longrightarrow>
        VerifyPhone this sWhich sPhone fQuiet w =
          (False, [], if fQuiet then w
                      else BADDOGS this (''invalid '' @ sWhich @ '' phone '' @ [QUOTE] @ sPhone @ [QUOTE]) w))"
proof (cases "\<exists>A B C. phone_form sPhone A B C")
  case True
  then obtain A B C where n: "phone_form sPhone A B C" by blast
  from rePhone_relI [OF n]
  have "sPhone = sPhone @ [] \<and> rx_rel rePhone_tail 0 sPhone [] [] [(3, C), (2, B), (1, A)]" by simp
  then have "\<exists>u s' caps'. sPhone = u @ s' \<and> rx_rel rePhone_tail 0 u s' [] caps'" by blast
  then obtain caps' where c: "regex_search sPhone rePhone = Some caps'"
    unfolding rePhone_eq using regex_search_None [of sPhone rePhone_tail]
    by (cases "regex_search sPhone (Seq Bol rePhone_tail)") auto
  then obtain u s' where "sPhone = u @ s'" "rx_rel rePhone_tail 0 u s' [] caps'"
    unfolding rePhone_eq by (auto dest: regex_search_Some)
  with rePhone_relD [of u s' caps'] obtain A' B' C' where n': "phone_form sPhone A' B' C'"
    and c': "caps' = [(3, C'), (2, B'), (1, A')]" by auto
  from c' have "str caps' 1 @ str caps' 2 @ str caps' 3 = A' @ B' @ C'" by (simp add: str_def)
  then have v: "VerifyPhone this sWhich sPhone fQuiet w = (True, A' @ B' @ C', w)"
    using assms c by (simp add: VerifyPhone_def)
  have "VerifyPhone this sWhich sPhone fQuiet w = (True, A'' @ B'' @ C'', w)"
    if "phone_form sPhone A'' B'' C''" for A'' B'' C''
    using v phone_form_digits [OF n'] phone_form_digits [OF that] by simp
  with v True show ?thesis by auto
next
  case False
  then have "\<not> (\<exists>u s' caps'. sPhone = u @ s' \<and> rx_rel rePhone_tail 0 u s' [] caps')"
    using rePhone_relD by fastforce
  then have "regex_search sPhone rePhone = None"
    unfolding rePhone_eq by (simp add: regex_search_None)
  with False assms show ?thesis by (auto simp: VerifyPhone_def)
qed

lemma search_phone_equals_example: "regex_search ''408=555-1212'' rePhone = None"
  by (simp add: regex_search_def rePhone_def cat_def digit_def space_def is_char_def
      phone_sep1_def phone_sep2_def one_of_def upt_rec)

text \<open>
  Claim C8 lets the equals sign stand between the area code and the prefix.  The value
  "408=555-1212" has the form the claim describes, and the verification refuses it.
\<close>

theorem VerifyPhone_rejects_equals_after_area_code:
  "phone_claimed ''408=555-1212'' \<and>
   \<not> fst (VerifyPhone new_200 ''home'' ''408=555-1212'' False two_reports)"
proof -
  have "''408=555-1212'' = [] @ ''408'' @ ''='' @ ''555'' @ ''-'' @ ''1212''
      \<and> digits 3 ''408'' \<and> list_all phone_sep_claimed ''=''
      \<and> digits 3 ''555'' \<and> list_all phone_sep_claimed ''-'' \<and> digits 4 ''1212''"
    by (simp add: digits_def digit_def phone_sep_claimed_def one_of_def)
  then have "phone_claimed ''408=555-1212''"
    unfolding phone_claimed_def by blast
  then show ?thesis
    by (simp add: VerifyPhone_def search_phone_equals_example)
qed

text \<open>
  Claim C8, amended.  For every phone value that is neither empty nor the word "none" the
  verification succeeds exactly when the value has the form \<open>phone_form\<close>: an optional "+",
  an optional "1", an optional white space character, an optional "(", the area code of three
  digits, an optional ")", any number of the separators white space, hyphen, slash, asterisk,
  comma and period, the prefix of three digits, any number of the separators white space,
  hyphen, equals sign, asterisk, comma and period, and the line number of four digits.  On
  success the value becomes the ten digits of area code, prefix and line number.  On failure
  the value is cleared, and a row is added to the error report unless the caller asked for
  a quiet check.
\<close>

theorem VerifyPhone_forms:
  assumes "sPhone \<noteq> []" and "sPhone \<noteq> ''none''"
  shows "(fst (VerifyPhone this sWhich sPhone fQuiet w) \<longleftrightarrow> (\<exists>A B C. phone_form sPhone A B C)) \<and>
    (\<forall>A B C. phone_form sPhone A B C \<longrightarrow>
        VerifyPhone this sWhich sPhone fQuiet w = (True, A @ B @ C, w)) \<and>
    ((\<forall>A B C. \<not> phone_form sPhone A B C) \<longrightarrow>
        VerifyPhone this sWhich sPhone fQuiet w =
          (False, [], if fQuiet then w
                      else BADDOGS this (''invalid '' @ sWhich @ '' phone '' @ [QUOTE] @ sPhone @ [QUOTE]) w))"
  using assms by (rule VerifyPhone_char)

text \<open>C8 on "+1 (408) 555-1212" and, with the quiet flag, on "555-1212".\<close>

theorem VerifyPhone_forms_witness:
  "VerifyPhone new_200 ''home'' ''+1 (408) 555-1212'' False two_reports
     = (True, ''4085551212'', two_reports) \<and>
   VerifyPhone new_200 ''cell'' ''555-1212'' True two_reports = (False, [], two_reports)"
proof -
  have "''+1 (408) 555-1212'' = ''+'' @ ''1'' @ '' '' @ ''('' @ ''408'' @ '')'' @ '' '' @ ''555'' @ ''-'' @ ''1212''
      \<and> space (CHR '' '') \<and> digits 3 ''408'' \<and> list_all phone_sep1 '' ''
      \<and> digits 3 ''555'' \<and> list_all phone_sep2 ''-'' \<and> digits 4 ''1212''"
    by (simp add: digits_def digit_def phone_sep1_def phone_sep2_def one_of_def space_def)
  then have f: "phone_form ''+1 (408) 555-1212'' ''408'' ''555'' ''1212''"
    unfolding phone_form_def by blast
  have n: "\<not> phone_form ''555-1212'' A B C" for A B C
  proof
    assume "phone_form ''555-1212'' A B C"
    then obtain p1 p2 p3 p4 p5 S1 S2 where
      u: "''555-1212'' = p1 @ p2 @ p3 @ p4 @ A @ p5 @ S1 @ B @ S2 @ C"
      and d: "digits 3 A" "digits 3 B" "digits 4 C"
      unfolding phone_form_def by blast
    from u have "length ''555-1212'' = length (p1 @ p2 @ p3 @ p4 @ A @ p5 @ S1 @ B @ S2 @ C)"
      by (rule arg_cong)
    with d show False by (simp add: digits_def)
  qed
  have a: "''+1 (408) 555-1212'' \<noteq> []" "''+1 (408) 555-1212'' \<noteq> ''none''"
    "''555-1212'' \<noteq> []" "''555-1212'' \<noteq> ''none''"
    by simp_all
  from VerifyPhone_forms [OF a(1) a(2), of new_200 "''home''" False two_reports] f
  have 1: "VerifyPhone new_200 ''home'' ''+1 (408) 555-1212'' False two_reports
     = (True, ''408'' @ ''555'' @ ''1212'', two_reports)"
    by blast
  from VerifyPhone_forms [OF a(3) a(4), of new_200 "''cell''" True two_reports] n
  have 2: "VerifyPhone new_200 ''cell'' ''555-1212'' True two_reports
     = (False, [], if True then two_reports
        else BADDOGS new_200 (''invalid '' @ ''cell'' @ '' phone '' @ [QUOTE] @ ''555-1212'' @ [QUOTE]) two_reports)"
    by blast
  from 1 2 show ?thesis by simp
qed

section \<open>The update records leave the dog records their keys\<close>

lemma keys_simps:
  "keys (MSGS m w) = keys w"
  "keys (BADDOGS d msg w) = keys w"
  by (simp_all add: keys_def fun_eq_iff state_simps)

lemma keys_put:
  "m_sMicrochip d = m_sMicrochip (objs w p) \<Longrightarrow> m_nNumber d = m_nNumber (objs w p)
   \<Longrightarrow> m_fUpdateRequired d = m_fUpdateRequired (objs w p) \<Longrightarrow> keys (put p d w) = keys w"
  by (simp add: keys_def fun_eq_iff put_def)

lemma VerifyPhone_state:
  "snd (snd (VerifyPhone this sWhich sPhone fQuiet w)) = w
   \<or> snd (snd (VerifyPhone this sWhich sPhone fQuiet w))
      = BADDOGS this (''invalid '' @ sWhich @ '' phone '' @ [QUOTE] @ sPhone @ [QUOTE]) w"
  by (simp add: VerifyPhone_def split: option.splits)

lemma keys_VerifyPhone: "keys (snd (snd (VerifyPhone this sWhich sPhone fQuiet w))) = keys w"
  using VerifyPhone_state [of this sWhich sPhone fQuiet w] by (auto simp: keys_simps)

lemma objs_VerifyPhone: "objs (snd (snd (VerifyPhone this sWhich sPhone fQuiet w))) = objs w"
  using VerifyPhone_state [of this sWhich sPhone fQuiet w] by (auto simp: state_simps)

lemma keys_VerifyZip: "keys (snd (snd (VerifyZip this s w))) = keys w"
  and objs_VerifyZip: "objs (snd (snd (VerifyZip this s w))) = objs w"
  by (simp_all add: VerifyZip_def keys_simps state_simps)

lemma keys_VerifyeMail: "keys (snd (snd (VerifyeMail this s w))) = keys w"
  and objs_VerifyeMail: "objs (snd (snd (VerifyeMail this s w))) = objs w"
  by (simp_all add: VerifyeMail_def keys_simps state_simps)

lemma keys_VerifyState: "keys (snd (snd (VerifyState this s w))) = keys w"
  and objs_VerifyState: "objs (snd (snd (VerifyState this s w))) = objs w"
  by (simp_all add: VerifyState_def keys_simps state_simps)

lemma keys_wrappers:
  "keys (snd (VerifyHomePhone p q w)) = keys w"
  "keys (snd (VerifyCellPhone p q w)) = keys w"
  "keys (snd (VerifyWorkPhone p q w)) = keys w"
  "keys (snd (VerifyAdoptionZip p w)) = keys w"
  "keys (snd (VerifyAdoptioneMail p w)) = keys w"
  "keys (snd (VerifyAdoptionState p w)) = keys w"
  by (simp_all add: VerifyHomePhone_def VerifyCellPhone_def VerifyWorkPhone_def
      VerifyAdoptionZip_def VerifyAdoptioneMail_def VerifyAdoptionState_def split_beta
      keys_put keys_VerifyPhone objs_VerifyPhone keys_VerifyZip objs_VerifyZip
      keys_VerifyeMail objs_VerifyeMail keys_VerifyState objs_VerifyState)

lemma keys_VerifySex: "keys (snd (VerifySex p w)) = keys w"
  by (simp add: VerifySex_def Let_def keys_put keys_simps state_simps)

lemma keys_VerifySpayNeuter: "keys (snd (VerifySpayNeuter p w)) = keys w"
  by (simp add: VerifySpayNeuter_def Let_def keys_put keys_simps state_simps)

lemma keys_VerifyAll:
  assumes "VerifyAll p w = Inr (ok, w')"
  shows "keys w' = keys w"
  using assms
  by (auto simp: VerifyAll_def split_beta Let_def keys_wrappers keys_VerifySex keys_VerifySpayNeuter
      keys_simps split: sum.splits if_splits)

lemma VerifyMicrochip_ok_state: "fst (VerifyMicrochip s m w) \<Longrightarrow> snd (snd (VerifyMicrochip s m w)) = w"
  by (auto simp: VerifyMicrochip_def split: option.splits if_splits)

lemma keys_VerifyMicrochip: "keys (snd (snd (VerifyMicrochip s m w))) = keys w"
  by (simp add: VerifyMicrochip_def keys_simps split: option.splits)

lemma keys_FromDog: "keys (snd (snd (FromDog p w))) = keys w"
  using keys_VerifyMicrochip [of "m_sMicrochip (objs w p)" False w]
  by (simp add: FromDog_def split_beta keys_simps)

lemma FromDog_chip:
  "m_sMicrochip_chip (fst (snd (FromDog p w))) = fst (snd (VerifyMicrochip (m_sMicrochip (objs w p)) False w))"
  by (simp add: FromDog_def split_beta)

lemma FromDog_nine:
  assumes "chip_nine (m_sMicrochip (objs w p)) a b c"
  shows "FromDog p w = (True, \<lparr> m_sMicrochip_chip = a @ b @ c, m_pDog = p \<rparr>, w)"
proof -
  let ?v = "VerifyMicrochip (m_sMicrochip (objs w p)) False w"
  from VerifyMicrochip_char [of "m_sMicrochip (objs w p)" False w] assms
  have 1: "fst ?v" and 2: "fst (snd ?v) = a @ b @ c" by blast+
  from VerifyMicrochip_ok_state [OF 1] have 3: "snd (snd ?v) = w" .
  from 1 2 3 show ?thesis by (simp add: FromDog_def split_beta)
qed

lemma CChips_Add_props:
  "keys (snd (snd (CChips_Add chip C w))) = keys w"
  "CChips_inv C \<Longrightarrow> CChips_inv (fst (snd (CChips_Add chip C w)))"
  "map_of C k = Some x \<Longrightarrow> map_of (fst (snd (CChips_Add chip C w))) k = Some x"
  "map_of (fst (snd (CChips_Add chip C w))) (m_sMicrochip_chip chip) \<noteq> None"
  by (auto simp: CChips_Add_def keys_simps CChips_inv_def map_of_map_insert)

lemma BuildUpdates_body_props:
  assumes "BuildUpdates_body p (C, v) = Inr (C', v')"
  shows "keys v' = keys v"
    and "CChips_inv C \<Longrightarrow> CChips_inv C'"
    and "map_of C k = Some x \<Longrightarrow> map_of C' k = Some x"
    and "m_fUpdateRequired (objs v p) \<Longrightarrow> chip_nine (m_sMicrochip (objs v p)) a b c
         \<Longrightarrow> map_of C' (a @ b @ c) \<noteq> None"
proof -
  consider (skip) "\<not> m_fUpdateRequired (objs v p)"
    | (nochip) "m_fUpdateRequired (objs v p)" "m_sMicrochip (objs v p) = []"
    | (go) "m_fUpdateRequired (objs v p)" "m_sMicrochip (objs v p) \<noteq> []"
    by blast
  then have "keys v' = keys v \<and> (CChips_inv C \<longrightarrow> CChips_inv C')
      \<and> (map_of C k = Some x \<longrightarrow> map_of C' k = Some x)
      \<and> (m_fUpdateRequired (objs v p) \<longrightarrow> chip_nine (m_sMicrochip (objs v p)) a b c
           \<longrightarrow> map_of C' (a @ b @ c) \<noteq> None)"
  proof cases
    case skip
    with assms show ?thesis by (simp add: BuildUpdates_body_def)
  next
    case nochip
    have "\<not> chip_nine [] a b c" by (auto simp: chip_nine_def digits_def)
    with nochip assms show ?thesis by (auto simp: BuildUpdates_body_def keys_simps)
  next
    case go
    with assms obtain ok v1 where va: "VerifyAll p v = Inr (ok, v1)"
      by (auto simp: BuildUpdates_body_def split: sum.splits)
    from keys_VerifyAll [OF va] have k1: "keys v1 = keys v" .
    then have o1: "m_sMicrochip (objs v1 p) = m_sMicrochip (objs v p)"
      by (auto simp: keys_def fun_eq_iff)
    show ?thesis
    proof (cases "fst (FromDog p v1)")
      case True
      with go va assms have e: "C' = fst (snd (CChips_Add (fst (snd (FromDog p v1))) C (snd (snd (FromDog p v1)))))"
        and e': "v' = snd (snd (CChips_Add (fst (snd (FromDog p v1))) C (snd (snd (FromDog p v1)))))"
        by (auto simp: BuildUpdates_body_def split_beta)
      have "map_of C' (a @ b @ c) \<noteq> None" if "chip_nine (m_sMicrochip (objs v p)) a b c"
      proof -
        from that o1 have "chip_nine (m_sMicrochip (objs v1 p)) a b c" by simp
        from FromDog_nine [OF this] have "m_sMicrochip_chip (fst (snd (FromDog p v1))) = a @ b @ c"
          by simp
        with CChips_Add_props(4) [of "fst (snd (FromDog p v1))" C "snd (snd (FromDog p v1))"]
        show ?thesis unfolding e by simp
      qed
      then show ?thesis
        unfolding e e' using k1 by (auto simp: CChips_Add_props keys_FromDog)
    next
      case False
      with go va assms have e: "C' = C" "v' = snd (snd (FromDog p v1))"
        by (auto simp: BuildUpdates_body_def split_beta)
      have "\<not> chip_nine (m_sMicrochip (objs v p)) a b c"
      proof
        assume "chip_nine (m_sMicrochip (objs v p)) a b c"
        with o1 have "chip_nine (m_sMicrochip (objs v1 p)) a b c" by simp
        from FromDog_nine [OF this] False show False by simp
      qed
      then show ?thesis unfolding e using k1 by (simp add: keys_FromDog)
    qed
  qed
  then show "keys v' = keys v"
    and "CChips_inv C \<Longrightarrow> CChips_inv C'"
    and "map_of C k = Some x \<Longrightarrow> map_of C' k = Some x"
    and "m_fUpdateRequired (objs v p) \<Longrightarrow> chip_nine (m_sMicrochip (objs v p)) a b c
         \<Longrightarrow> map_of C' (a @ b @ c) \<noteq> None"
    by blast+
qed

lemma BuildUpdates_loop_props:
  assumes "BuildUpdates_loop ps (C, v) = Inr (C', v')"
  shows "keys v' = keys v \<and> (CChips_inv C \<longrightarrow> CChips_inv C')
      \<and> (\<forall>k x. map_of C k = Some x \<longrightarrow> map_of C' k = Some x)
      \<and> (\<forall>p a b c. p \<in> set ps \<and> m_fUpdateRequired (objs v p)
            \<and> chip_nine (m_sMicrochip (objs v p)) a b c \<longrightarrow> map_of C' (a @ b @ c) \<noteq> None)"
  using assms
proof (induction ps arbitrary: C v)
  case Nil
  then show ?case by simp
next
  case (Cons q ps)
  from Cons.prems obtain C1 v1 where b: "BuildUpdates_body q (C, v) = Inr (C1, v1)"
    and l: "BuildUpdates_loop ps (C1, v1) = Inr (C', v')"
    by (auto split: sum.splits)
  note B = BuildUpdates_body_props [OF b]
  note L = Cons.IH [OF l]
  from B(1) have o: "m_fUpdateRequired (objs v1 p) = m_fUpdateRequired (objs v p)"
    "m_sMicrochip (objs v1 p) = m_sMicrochip (objs v p)" for p
    by (auto simp: keys_def fun_eq_iff)
  have 1: "keys v' = keys v" using L B(1) by simp
  have 2: "CChips_inv C \<longrightarrow> CChips_inv C'" using L B(2) by blast
  have 3: "map_of C' k = Some x" if "map_of C k = Some x" for k x
    using L B(3) [OF that] by blast
  have 4: "map_of C' (a @ b @ c) \<noteq> None"
    if "p \<in> set (q # ps)" "m_fUpdateRequired (objs v p)" "chip_nine (m_sMicrochip (objs v p)) a b c"
    for p a b c
  proof (cases "p = q")
    case True
    with B(4) [of a b c] that have "map_of C1 (a @ b @ c) \<noteq> None" by simp
    then obtain x where "map_of C1 (a @ b @ c) = Some x" by blast
    with L have "map_of C' (a @ b @ c) = Some x" by blast
    then show ?thesis by simp
  next
    case False
    with that have "p \<in> set ps" by simp
    with that o L show ?thesis by simp
  qed
  from 1 2 3 4 show ?case by blast
qed

text \<open>
  Claim C10.  When \<open>BuildUpdates\<close> returns, no record has another microchip number or dog
  number than before, so the chip table of the collection, which \<open>BuildUpdates\<close> only reads,
  still finds every record under the string it was filed under; for every record of the
  collection that needs an update and whose microchip number has the nine digit form with
  groups \<open>a\<close>, \<open>b\<close>, \<open>c\<close>, the table of update records holds a record under the stripped number
  \<open>a @ b @ c\<close>; and \<open>FromDog\<close> on such a record yields an update record with the stripped
  number as its own copy and leaves the state, and with it the dog record, as it is.
\<close>

theorem BuildUpdates_keeps_chip_of_dog:
  assumes "BuildUpdates Dogs w = Inr (Chips, w')"
  shows "(\<forall>q. m_sMicrochip (objs w' q) = m_sMicrochip (objs w q)
             \<and> m_nNumber (objs w' q) = m_nNumber (objs w q)
             \<and> Find_chip Dogs (m_sMicrochip (objs w' q)) = Find_chip Dogs (m_sMicrochip (objs w q))) \<and>
         (\<forall>p a b c. p \<in> snd ` set (m_mapNumber Dogs) \<and> m_fUpdateRequired (objs w p)
             \<and> chip_nine (m_sMicrochip (objs w p)) a b c \<longrightarrow>
             (\<exists>chip. map_of Chips (a @ b @ c) = Some chip \<and> m_sMicrochip_chip chip = a @ b @ c)) \<and>
         (\<forall>p a b c v. chip_nine (m_sMicrochip (objs v p)) a b c \<longrightarrow>
             FromDog p v = (True, \<lparr> m_sMicrochip_chip = a @ b @ c, m_pDog = p \<rparr>, v))"
proof -
  from assms have l: "BuildUpdates_loop (map snd (m_mapNumber Dogs)) ([], w) = Inr (Chips, w')"
    by (simp add: BuildUpdates_def)
  note L = BuildUpdates_loop_props [OF l]
  from L have k: "keys w' = keys w" by blast
  then have 1: "m_sMicrochip (objs w' q) = m_sMicrochip (objs w q)
             \<and> m_nNumber (objs w' q) = m_nNumber (objs w q)
             \<and> Find_chip Dogs (m_sMicrochip (objs w' q)) = Find_chip Dogs (m_sMicrochip (objs w q))" for q
    by (auto simp: keys_def fun_eq_iff)
  have i: "CChips_inv Chips" using L by (simp add: CChips_inv_def)
  have 2: "\<exists>chip. map_of Chips (a @ b @ c) = Some chip \<and> m_sMicrochip_chip chip = a @ b @ c"
    if "p \<in> snd ` set (m_mapNumber Dogs)" "m_fUpdateRequired (objs w p)"
       "chip_nine (m_sMicrochip (objs w p)) a b c" for p a b c
  proof -
    from that L have "map_of Chips (a @ b @ c) \<noteq> None" by auto
    then obtain chip where "map_of Chips (a @ b @ c) = Some chip" by blast
    with i show ?thesis by (auto simp: CChips_inv_def)
  qed
  from 1 2 FromDog_nine show ?thesis by blast
qed

lemma legacy_fields:
  "objs legacy_world p = dog_legacy" "m_sMicrochip dog_legacy = ''123 456 789''"
  "m_fUpdateRequired dog_legacy" "m_sSex dog_legacy = ''Male''" "m_sNeuter dog_legacy = ''Yes''"
  "m_sAdoptionFName dog_legacy = []" "m_sAdoptionLName dog_legacy = []"
  "m_sAdoptioneMail dog_legacy = []" "m_sAdoptionCellPhone dog_legacy = []"
  "m_sAdoptionHomePhone dog_legacy = []" "m_sAdoptionWorkPhone dog_legacy = []"
  "m_sAdoptionAddress dog_legacy = []" "m_sAdoptionState dog_legacy = []"
  "m_sAdoptionZip dog_legacy = []"
  by (simp_all add: legacy_world_def dog_legacy_def dog_aged_def Initialize_def)

lemma ComputeBirthday_legacy: "ComputeBirthday dog_legacy = Inr (True, ''03/15/2017'')"
  by (simp add: ComputeBirthday_def dog_legacy_def dog_aged_def Initialize_def tolower_age_example
      search_age_example str_def stoi_def decimal_value_examples GetDateAcquired_def
      ParseDate_example Let_def to_uint32_def FormatDate_example)

lemma VerifyAll_legacy: "VerifyAll 20 legacy_world = Inr (True, legacy_world)"
  by (simp add: VerifyAll_def VerifySex_def VerifySpayNeuter_def Let_def legacy_fields
      tolower_def tolower_char_def ComputeBirthday_legacy)

lemma chip_nine_example: "chip_nine ''123 456 789'' ''123'' ''456'' ''789''"
  unfolding chip_nine_def
  by (rule exI [of _ "'' ''"], rule exI [of _ "'' ''"]) (simp add: digits_def digit_def chip_gap_def)

lemma FromDog_legacy:
  "FromDog 20 legacy_world = (True, \<lparr> m_sMicrochip_chip = ''123456789'', m_pDog = 20 \<rparr>, legacy_world)"
  using FromDog_nine [of legacy_world 20 "''123''" "''456''" "''789''"] chip_nine_example
  by (simp add: legacy_fields)

lemma BuildUpdates_legacy:
  "BuildUpdates legacy_dogs legacy_world
   = Inr ([(''123456789'', \<lparr> m_sMicrochip_chip = ''123456789'', m_pDog = 20 \<rparr>)], legacy_world)"
  by (simp add: BuildUpdates_def legacy_dogs_def BuildUpdates_body_def legacy_fields
      VerifyAll_legacy FromDog_legacy CChips_Add_def map_insert_def)

text \<open>
  C10 on a collection with one record whose microchip number reads "123 456 789": the update
  record is filed under "123456789", the dog record keeps "123 456 789", and the chip table
  finds it there.
\<close>

theorem BuildUpdates_keeps_chip_of_dog_witness:
  "BuildUpdates legacy_dogs legacy_world
     = Inr ([(''123456789'', \<lparr> m_sMicrochip_chip = ''123456789'', m_pDog = 20 \<rparr>)], legacy_world) \<and>
   m_sMicrochip (objs legacy_world 20) = ''123 456 789'' \<and>
   Find_chip legacy_dogs (m_sMicrochip (objs legacy_world 20)) = Some 20 \<and>
   (\<exists>chip. map_of [(''123456789'', \<lparr> m_sMicrochip_chip = ''123456789'', m_pDog = 20 \<rparr>)] ''123456789''
            = Some chip \<and> m_sMicrochip_chip chip = ''123456789'') \<and>
   FromDog 20 legacy_world
     = (True, \<lparr> m_sMicrochip_chip = ''123456789'', m_pDog = 20 \<rparr>, legacy_world)"
proof -
  note t = BuildUpdates_keeps_chip_of_dog [OF BuildUpdates_legacy]
  have h: "20 \<in> snd ` set (m_mapNumber legacy_dogs)" "m_fUpdateRequired (objs legacy_world 20)"
    "chip_nine (m_sMicrochip (objs legacy_world 20)) ''123'' ''456'' ''789''"
    using chip_nine_example by (simp_all add: legacy_dogs_def legacy_fields)
  from t h have 1: "\<exists>chip. map_of [(''123456789'', \<lparr> m_sMicrochip_chip = ''123456789'', m_pDog = 20 \<rparr>)]
      (''123'' @ ''456'' @ ''789'') = Some chip \<and> m_sMicrochip_chip chip = ''123'' @ ''456'' @ ''789''"
    by blast
  from t h(3) have 2: "FromDog 20 legacy_world
     = (True, \<lparr> m_sMicrochip_chip = ''123'' @ ''456'' @ ''789'', m_pDog = 20 \<rparr>, legacy_world)"
    by blast
  have 3: "Find_chip legacy_dogs (m_sMicrochip (objs legacy_world 20)) = Some 20"
    by (simp add: legacy_fields Find_chip_def legacy_dogs_def)
  from 1 2 3 show ?thesis by (simp add: BuildUpdates_legacy legacy_fields)
qed

section \<open>Formatting a row and parsing it again\<close>

lemma takeWhile_Nil_iff: "takeWhile P s = [] \<longleftrightarrow> (s = [] \<or> \<not> P (hd s))"
  by (cases s) auto

lemma TrimColumn_length: "length (TrimColumn s) \<le> length s"
  unfolding TrimColumn_def Let_def by (simp add: min.coboundedI1)

lemma TrimColumn_set: "set (TrimColumn s) \<subseteq> set s"
  unfolding TrimColumn_def Let_def
  by (auto dest!: in_set_takeD in_set_dropD)

lemma TrimColumn_shape:
  assumes "\<not> list_all is_blank s"
  shows "\<exists>a b. b < length s \<and> TrimColumn s = take (length s - b) (drop a s)
    \<and> (a = 0 \<longleftrightarrow> \<not> is_blank (hd s)) \<and> (b = 0 \<longleftrightarrow> \<not> is_blank (last s))"
proof -
  from assms have ne: "s \<noteq> []" by auto
  define a where "a = length (takeWhile is_blank s)"
  define b where "b = length (takeWhile is_blank (rev s))"
  have b_lt: "b < length s"
  proof -
    have "takeWhile is_blank (rev s) \<noteq> rev s"
      using assms by (simp add: takeWhile_eq_all_conv list_all_iff)
    moreover have "length (takeWhile is_blank (rev s)) \<le> length (rev s)"
      by (rule length_takeWhile_le)
    ultimately show ?thesis unfolding b_def
      by (metis length_rev le_neq_implies_less takeWhile_eq_take take_all_iff order_refl)
  qed
  have T: "TrimColumn s = take (length s - b) (drop a s)"
    using assms b_lt by (simp add: TrimColumn_def Let_def a_def b_def Suc_diff_Suc)
  have a0: "a = 0 \<longleftrightarrow> \<not> is_blank (hd s)"
    using ne by (simp add: a_def takeWhile_Nil_iff)
  have b0: "b = 0 \<longleftrightarrow> \<not> is_blank (last s)"
    using ne by (simp add: b_def takeWhile_Nil_iff hd_rev)
  from b_lt T a0 b0 show ?thesis by blast
qed

lemma TrimColumn_shorter: "TrimColumn s = s \<or> length (TrimColumn s) < length s"
proof (cases "list_all is_blank s")
  case True
  then show ?thesis by (cases s) (auto simp: TrimColumn_def)
next
  case False
  from TrimColumn_shape [OF this] obtain a b where
    s: "b < length s" "TrimColumn s = take (length s - b) (drop a s)" by blast
  show ?thesis
  proof (cases "a = 0 \<and> b = 0")
    case True
    then show ?thesis using s by simp
  next
    case False
    then have "length (take (length s - b) (drop a s)) < length s"
      using s(1) by (auto simp: min_def)
    then show ?thesis using s(2) by simp
  qed
qed

lemma TrimColumn_id:
  "TrimColumn s = s \<longleftrightarrow> (s = [] \<or> (\<not> is_blank (hd s) \<and> \<not> is_blank (last s)))"
proof (cases "list_all is_blank s")
  case True
  then show ?thesis by (cases s) (auto simp: TrimColumn_def)
next
  case False
  then have ne: "s \<noteq> []" by auto
  from TrimColumn_shape [OF False] obtain a b where
    s: "b < length s" "TrimColumn s = take (length s - b) (drop a s)"
      "a = 0 \<longleftrightarrow> \<not> is_blank (hd s)" "b = 0 \<longleftrightarrow> \<not> is_blank (last s)" by blast
  show ?thesis
  proof
    assume "TrimColumn s = s"
    then have "length (take (length s - b) (drop a s)) = length s" using s(2) by simp
    then have "a = 0 \<and> b = 0" using s(1) by (auto simp: min_def split: if_splits)
    then show "s = [] \<or> (\<not> is_blank (hd s) \<and> \<not> is_blank (last s))"
      using s(3,4) by simp
  next
    assume "s = [] \<or> (\<not> is_blank (hd s) \<and> \<not> is_blank (last s))"
    then have "a = 0" "b = 0" using ne s(3,4) by auto
    then show "TrimColumn s = s" using s(2) by simp
  qed
qed

lemma RemoveEquals_length: "length (RemoveEquals s) \<le> length s"
  by (auto simp: RemoveEquals_def split: list.splits intro!: le_SucI)

lemma RemoveEquals_set: "set (RemoveEquals s) \<subseteq> set s"
  unfolding RemoveEquals_def
  by (auto split: list.splits dest!: in_set_takeD in_set_dropD)

lemma RemoveEquals_id: "RemoveEquals s = s \<longleftrightarrow> (s = [] \<or> hd s \<noteq> CHR ''='')"
proof (cases s)
  case Nil
  then show ?thesis by (simp add: RemoveEquals_def)
next
  case (Cons c dst)
  show ?thesis
  proof (cases "c = CHR ''=''")
    case False
    then show ?thesis using Cons by (simp add: RemoveEquals_def)
  next
    case True
    have "length (RemoveEquals s) < length s"
      using Cons True by (simp add: RemoveEquals_def less_Suc_eq_le)
    then have "RemoveEquals s \<noteq> s" by auto
    then show ?thesis using Cons True by simp
  qed
qed

lemma stored_id: "stored f = f \<longleftrightarrow> plain f"
proof
  assume e: "stored f = f"
  have 1: "length (TrimColumn f) \<le> length f" by (rule TrimColumn_length)
  have 2: "length (RemoveEquals (TrimColumn f)) \<le> length (TrimColumn f)"
    by (rule RemoveEquals_length)
  have 3: "length (stored f) \<le> length (RemoveEquals (TrimColumn f))"
    unfolding stored_def by (rule TrimColumn_length)
  from e 1 2 3 have l: "length (TrimColumn f) = length f"
    "length (RemoveEquals (TrimColumn f)) = length (TrimColumn f)" by simp_all
  have t: "TrimColumn f = f"
    using TrimColumn_shorter [of f] l(1) by auto
  have r: "RemoveEquals f = f"
  proof (rule ccontr)
    assume "RemoveEquals f \<noteq> f"
    then obtain dst where f: "f = CHR ''='' # dst"
      using RemoveEquals_id [of f] by (cases f) auto
    have "length (RemoveEquals f) < length f"
      unfolding f by (simp add: RemoveEquals_def less_Suc_eq_le)
    with l(2) t show False by simp
  qed
  from t r show "plain f"
    using TrimColumn_id [of f] RemoveEquals_id [of f] by (auto simp: plain_def)
next
  assume "plain f"
  then have "TrimColumn f = f" "RemoveEquals f = f"
    using TrimColumn_id [of f] RemoveEquals_id [of f] by (auto simp: plain_def)
  then show "stored f = f" by (simp add: stored_def)
qed

lemma stored_set: "set (stored f) \<subseteq> set f"
  unfolding stored_def using TrimColumn_set RemoveEquals_set by blast

lemma QUOTE_neq_COMMA [simp]: "QUOTE \<noteq> COMMA" "COMMA \<noteq> QUOTE"
  by (simp_all add: QUOTE_def COMMA_def)

lemma ParseField_loop_end:
  "ends_field rest \<Longrightarrow> ParseField_loop False l res rest = (res, rest)"
  by (cases rest) (auto simp: ends_field_def)

lemma ParseField_loop_bare:
  "QUOTE \<notin> set f \<Longrightarrow> COMMA \<notin> set f \<Longrightarrow> ends_field rest \<Longrightarrow>
    ParseField_loop False l res (f @ rest) = (res @ f, rest)"
proof (induction f arbitrary: l res)
  case Nil
  then show ?case by (simp add: ParseField_loop_end)
next
  case (Cons c f)
  then show ?case by auto
qed

lemma ParseField_loop_quoted:
  "ends_field rest \<Longrightarrow>
    ParseField_loop True False res
      (concat (map (\<lambda>c. if c = QUOTE then [c, QUOTE] else [c]) f) @ QUOTE # rest) = (res @ f, rest)"
proof (induction f arbitrary: res)
  case Nil
  then show ?case by (simp add: ParseField_loop_end)
next
  case (Cons c f)
  then show ?case by auto
qed

lemma ParseField_FormatField:
  "ends_field rest \<Longrightarrow> ParseField (FormatField f @ rest) = (f, rest)"
proof (cases "NeedsQuotes f")
  case False
  assume "ends_field rest"
  with False show ?thesis
    using ParseField_loop_bare [of f rest False "[]"]
    by (simp add: ParseField_def FormatField_def NeedsQuotes_def)
next
  case True
  assume "ends_field rest"
  with True show ?thesis
    using ParseField_loop_quoted [of rest "[]" f]
    by (simp add: ParseField_def FormatField_def)
qed

lemma ends_field_Format_from: "ends_field (Format_from False cols)"
  by (cases cols) (simp_all add: ends_field_def)

lemma Parse_loop_Format:
  "Parse_loop (FormatField f @ Format_from False fs) = map stored (f # fs)"
proof (induction fs arbitrary: f)
  case Nil
  show ?case
    using ParseField_FormatField [of "[]" f]
    by (subst Parse_loop.simps) (simp add: ends_field_def stored_def)
next
  case (Cons g gs)
  have "ParseField (FormatField f @ Format_from False (g # gs))
      = (f, COMMA # FormatField g @ Format_from False gs)"
    using ParseField_FormatField [OF ends_field_Format_from, of f "g # gs"] by simp
  then show ?case
    using Cons [of g] by (subst Parse_loop.simps) (simp add: stored_def)
qed

lemma FormatField_Nil: "FormatField f = [] \<longleftrightarrow> f = []"
  by (auto simp: FormatField_def NeedsQuotes_def)

lemma Parse_Format:
  "Parse (Format cols) = (if cols = [[]] then [] else map stored cols)"
proof (cases cols)
  case Nil
  then show ?thesis by (simp add: Parse_def Format_def)
next
  case (Cons f fs)
  show ?thesis
  proof (cases "f = [] \<and> fs = []")
    case True
    then show ?thesis using Cons by (simp add: Parse_def Format_def FormatField_def NeedsQuotes_def)
  next
    case False
    then have "FormatField f @ Format_from False fs \<noteq> []"
      by (cases fs) (auto simp: FormatField_Nil)
    then show ?thesis
      using Cons False Parse_loop_Format [of f fs] by (auto simp: Parse_def Format_def)
  qed
qed

lemma map_stored_id: "map stored cols = cols \<longleftrightarrow> (\<forall>f\<in>set cols. plain f)"
  by (induction cols) (auto simp: stored_id)

lemma round_trip_char:
  "Parse (Format cols) = cols \<longleftrightarrow> cols \<noteq> [[]] \<and> (\<forall>f\<in>set cols. plain f)"
  by (auto simp: Parse_Format map_stored_id)

lemma reformat_char:
  assumes "\<not> NeedsQuotes f"
  shows "Format (Parse (Format [f])) = Format [f] \<longleftrightarrow> plain f"
proof (cases "f = []")
  case True
  then have "Parse (Format [f]) = []" by (simp add: Parse_Format)
  then show ?thesis
    using True by (simp add: Format_def FormatField_def NeedsQuotes_def plain_def)
next
  case False
  have "\<not> NeedsQuotes (stored f)"
    using assms stored_set [of f] by (auto simp: NeedsQuotes_def)
  moreover have "Parse (Format [f]) = [stored f]"
    using False by (simp add: Parse_Format)
  ultimately have "Format (Parse (Format [f])) = stored f"
    by (simp add: Format_def FormatField_def)
  moreover have "Format [f] = f" using assms by (simp add: Format_def FormatField_def)
  ultimately show ?thesis by (simp add: stored_id)
qed

lemma stored_example: "stored '' a'' = ''a''"
  by (simp add: stored_def TrimColumn_def RemoveEquals_def is_blank_def)

text \<open>
  Claim C5 says that parsing the formatted line returns the original fields for every list of
  fields, and that formatting, parsing and formatting again a single field without comma and
  quote gives the same line as formatting it once.  Both fail for the field " a", which has no
  comma and no quote: \<open>Parse\<close> trims it.
\<close>

theorem Parse_Format_drops_leading_space:
  "Parse (Format ['' a'']) \<noteq> ['' a''] \<and> \<not> NeedsQuotes '' a''
   \<and> Format (Parse (Format ['' a''])) \<noteq> Format ['' a'']"
proof -
  have 1: "Parse (Format ['' a'']) = [''a'']" by (simp add: Parse_Format stored_example)
  have 2: "Format [''a''] = ''a''" "Format ['' a''] = '' a''" "\<not> NeedsQuotes '' a''"
    by (simp_all add: Format_def FormatField_def NeedsQuotes_def QUOTE_def COMMA_def)
  from 1 2 show ?thesis by simp
qed

text \<open>
  Claim C5, amended.  Parsing the formatted line returns the original fields exactly for the
  lists of fields, other than the list of one empty field, in which every field is empty or
  neither begins with a space, a tab or an equals sign nor ends with a space or a tab; commas
  and quotes inside the fields do no harm.  For a single field without comma and quote,
  formatting, parsing and formatting again gives the line of the first formatting exactly when
  the field is of that kind.
\<close>

theorem Parse_Format_round_trip:
  "(Parse (Format cols) = cols \<longleftrightarrow> cols \<noteq> [[]] \<and> (\<forall>f\<in>set cols. plain f))
   \<and> (\<not> NeedsQuotes f \<longrightarrow> (Format (Parse (Format [f])) = Format [f] \<longleftrightarrow> plain f))"
  using round_trip_char [of cols] reformat_char [of f] by blast

theorem Parse_Format_round_trip_witness:
  "Parse (Format [''Rex, the dog'', QUOTE # ''woof'' @ [QUOTE], [], ''a b'']) =
      [''Rex, the dog'', QUOTE # ''woof'' @ [QUOTE], [], ''a b'']
   \<and> Format (Parse (Format [''Rex''])) = Format [''Rex'']"
  using Parse_Format_round_trip [of "[''Rex, the dog'', QUOTE # ''woof'' @ [QUOTE], [], ''a b'']" "''Rex''"]
  by (simp add: plain_def is_blank_def NeedsQuotes_def QUOTE_def COMMA_def)

section \<open>Reading a spreadsheet\<close>

lemma getline_line:
  "one_line l \<Longrightarrow> getline \<lparr>buf = l @ CHR 0x0A # t, eofbit = False\<rparr>
     = (l, \<lparr>buf = t, eofbit = False\<rparr>)"
proof -
  assume "one_line l"
  then have "takeWhile (\<lambda>c. c \<noteq> CHR 0x0A) (l @ CHR 0x0A # t) = l"
    "dropWhile (\<lambda>c. c \<noteq> CHR 0x0A) (l @ CHR 0x0A # t) = CHR 0x0A # t"
    unfolding one_line_def by (induction l) auto
  then show ?thesis by (simp add: getline_def)
qed

lemma getline_end:
  "getline \<lparr>buf = [], eofbit = False\<rparr> = ([], \<lparr>buf = [], eofbit = True\<rparr>)"
  by (simp add: getline_def)

lemma console_same: "w\<lparr>console := console w @ []\<rparr> = w"
  by simp

lemma MSGS_console:
  "MSGS m (w\<lparr>console := console w @ ms\<rparr>) = w\<lparr>console := console w @ ms @ [m]\<rparr>"
  by (simp add: MSGS_def)

lemma Read_loop_lines:
  "\<forall>l\<in>set ls. one_line l \<Longrightarrow>
    Read_loop nCols \<lparr>buf = unlines ls, eofbit = False\<rparr> row nLines rows w
      = Some (rows @ map Parse ls, w\<lparr>console := console w @ wrong_columns nCols nLines ls\<rparr>)"
proof (induction ls arbitrary: row nLines rows w)
  case Nil
  show ?case
    by (subst Read_loop.simps)
      (simp add: unlines_def CCSVRow_Read_def getline_end Parse_def)
next
  case (Cons l ls)
  then have l: "one_line l" and ls: "\<forall>l\<in>set ls. one_line l" by simp_all
  have u: "unlines (l # ls) = l @ CHR 0x0A # unlines ls" by (simp add: unlines_def)
  have r: "CCSVRow_Read \<lparr>buf = unlines (l # ls), eofbit = False\<rparr> row
      = (Parse l, \<lparr>buf = unlines ls, eofbit = False\<rparr>)"
    by (simp add: CCSVRow_Read_def u getline_line [OF l])
  show ?case
    by (subst Read_loop.simps)
      (simp add: r Let_def Cons.IH [OF ls] MSGS_def)
qed

lemma wrong_columns_0: "wrong_columns 0 nLines ls = []"
  by (induction ls arbitrary: nLines) simp_all

lemma unchanged_console: "wrong_columns 0 k ls = [] \<Longrightarrow> w\<lparr>console := console w @ wrong_columns 0 k ls\<rparr> = w"
  by simp

lemma Read_no_header:
  assumes "\<forall>l\<in>set ls. one_line l"
  shows "CCSVFile_Read \<lparr>buf = unlines ls, eofbit = False\<rparr> [] rows w = Some (rows @ map Parse ls, w)"
proof -
  have "CCSVFile_Read \<lparr>buf = unlines ls, eofbit = False\<rparr> [] rows w
      = Read_loop 0 \<lparr>buf = unlines ls, eofbit = False\<rparr> [] 0 rows w"
    by (simp add: CCSVFile_Read_def)
  also have "\<dots> = Some (rows @ map Parse ls, w\<lparr>console := console w @ wrong_columns 0 0 ls\<rparr>)"
    by (rule Read_loop_lines [OF assms])
  also have "\<dots> = Some (rows @ map Parse ls, w)"
    by (simp only: unchanged_console [OF wrong_columns_0])
  finally show ?thesis .
qed

lemma Verify_row_eq: "Verify_row a b \<longleftrightarrow> a = b"
proof (cases "length a = length b")
  case True
  then have "list_all (\<lambda>(x, y). x = y) (zip a b) \<longleftrightarrow> a = b"
    by (induction a b rule: list_induct2) auto
  with True show ?thesis by (simp add: Verify_row_def)
next
  case False
  then show ?thesis by (auto simp: Verify_row_def)
qed

lemma Read_header:
  assumes "sHeader \<noteq> []" "one_line l0" "\<forall>l\<in>set ls. one_line l"
  shows "CCSVFile_Read \<lparr>buf = unlines (l0 # ls), eofbit = False\<rparr> sHeader rows w
    = Some (rows @ map Parse ls,
        w\<lparr>console := console w
          @ (if Parse l0 = Parse sHeader then [] else [''CCSVFile::Read() header does not match''])
          @ wrong_columns (length (Parse l0)) 1 ls\<rparr>)"
proof -
  have u: "unlines (l0 # ls) = l0 @ CHR 0x0A # unlines ls" by (simp add: unlines_def)
  have r: "CCSVRow_Read \<lparr>buf = unlines (l0 # ls), eofbit = False\<rparr> []
      = (Parse l0, \<lparr>buf = unlines ls, eofbit = False\<rparr>)"
    by (simp add: CCSVRow_Read_def u getline_line [OF assms(2)])
  show ?thesis
    using assms(1)
    by (simp add: CCSVFile_Read_def r Let_def Read_loop_lines [OF assms(3)] Verify_def
        Verify_row_eq MSGS_def)
qed

lemma Parse_examples:
  "Parse ''a,b'' = [''a'', ''b'']" "Parse ''c'' = [''c'']" "Parse ''x,y'' = [''x'', ''y'']"
  "Parse ''1,2'' = [''1'', ''2'']" "Parse ''3'' = [''3'']"
  by (simp_all add: Parse_def Parse_loop.simps ParseField_def COMMA_def QUOTE_def
      TrimColumn_def RemoveEquals_def is_blank_def)

text \<open>
  Claim C6 says that a header mismatch and a row with the wrong number of columns are fatal
  errors that abort the run, and that without a header check the first data row sets the
  number of columns required of the others.  Without a header check the rows "a,b" and "c" are
  both read and nothing is reported.  With the expected header "a,b" and the header row "x,y"
  the reading writes a message and goes on; it writes another for the row "3" and keeps the row.
\<close>

theorem Read_keeps_rows_of_any_width:
  "CCSVFile_Read \<lparr>buf = unlines [''a,b'', ''c''], eofbit = False\<rparr> [] [] two_reports
     = Some ([[''a'', ''b''], [''c'']], two_reports)
   \<and> CCSVFile_Read \<lparr>buf = unlines [''x,y'', ''1,2'', ''3''], eofbit = False\<rparr> ''a,b'' [] two_reports
     = Some ([[''1'', ''2''], [''3'']],
         two_reports\<lparr>console := console two_reports @ [''CCSVFile::Read() header does not match'',
            ''CCSVFile::Read() wrong number of columns in line 3'']\<rparr>)"
proof -
  have 1: "\<forall>l\<in>set [''a,b'', ''c'']. one_line l" "one_line ''x,y''"
    "\<forall>l\<in>set [''1,2'', ''3'']. one_line l" "''a,b'' \<noteq> []"
    by (simp_all add: one_line_def)
  show ?thesis
    by (simp add: Read_no_header [OF 1(1)] Read_header [OF 1(4) 1(2) 1(3)] Parse_examples to_string_examples)
qed

text \<open>
  Claim C6, amended.  For a file whose lines all end with a newline: with an expected header
  the first line is the header row; when it differs from the parsed expected header the message
  "header does not match" is written; for every later row whose number of columns differs from
  that of the header row (when that is not zero) the message "wrong number of columns in line N"
  is written; reading goes on in both cases and every row after the header row is kept.  With
  no expected header every line becomes a row and nothing is written, whatever the numbers of
  columns.
\<close>

theorem Read_reports_and_goes_on:
  assumes "one_line l0" and "\<forall>l\<in>set ls. one_line l"
  shows "(sHeader \<noteq> [] \<longrightarrow>
      CCSVFile_Read \<lparr>buf = unlines (l0 # ls), eofbit = False\<rparr> sHeader rows w
      = Some (rows @ map Parse ls,
          w\<lparr>console := console w
            @ (if Parse l0 = Parse sHeader then [] else [''CCSVFile::Read() header does not match''])
            @ wrong_columns (length (Parse l0)) 1 ls\<rparr>))
    \<and> CCSVFile_Read \<lparr>buf = unlines (l0 # ls), eofbit = False\<rparr> [] rows w
      = Some (rows @ map Parse (l0 # ls), w)"
  using Read_header [OF _ assms, of sHeader rows w] Read_no_header [of "l0 # ls" rows w] assms
  by simp

lemma Parse_examples2:
  "Parse ''Name,Number'' = [''Name'', ''Number'']" "Parse ''Rex,17'' = [''Rex'', ''17'']"
  "Parse ''Fido'' = [''Fido'']" "Parse ''Name, Number'' = [''Name'', ''Number'']"
  by (simp_all add: Parse_def Parse_loop.simps ParseField_def COMMA_def QUOTE_def
      TrimColumn_def RemoveEquals_def is_blank_def)

theorem Read_reports_and_goes_on_witness:
  "CCSVFile_Read \<lparr>buf = unlines [''Name,Number'', ''Rex,17'', ''Fido''], eofbit = False\<rparr>
      ''Name, Number'' [] two_reports
    = Some ([[''Rex'', ''17''], [''Fido'']],
        two_reports\<lparr>console := console two_reports
          @ [''CCSVFile::Read() wrong number of columns in line 3'']\<rparr>)
   \<and> CCSVFile_Read \<lparr>buf = unlines [''Name,Number'', ''Rex,17'', ''Fido''], eofbit = False\<rparr>
      [] [] two_reports
    = Some ([[''Name'', ''Number''], [''Rex'', ''17''], [''Fido'']], two_reports)"
proof -
  have 1: "one_line ''Name,Number''" "\<forall>l\<in>set [''Rex,17'', ''Fido'']. one_line l"
    by (simp_all add: one_line_def)
  from Read_reports_and_goes_on [OF 1, of "''Name, Number''" "[]" two_reports]
  show ?thesis by (simp add: Parse_examples2 to_string_examples)
qed

section \<open>The columns of the two layouts\<close>

lemma old_headers:
  "Parse m_sOldColumnHeaders =
    [''Dog Name'', ''Dog Number'', ''Micropchip number'', ''Dog Age'', ''Dog Sex'', 
     ''Dog Breed'', ''Dog Neuter'', ''Dog Status'', ''Dog Location'', 
     ''How Acquired'', ''Date Acquired'', ''Primary Contact Fname'', 
     ''Primary Contact Lname'', ''Surrender Fname'', ''Surrender Lname'', 
     ''Surrender Address'', ''Surrender City'', ''Surrender State'', 
     ''Surrender Zip Code'', ''Originating Area'', ''Adoption Fname'', 
     ''Adoption Lname'', ''AC Fname'', ''AC Lname'', ''Adoption Address'', 
     ''Adoption City'', ''Adoption State'', ''Adoption Zip Code'', ''Adoption Area'', 
     ''Adoption Email'', ''Adoption Home Phone'', ''Adoption Work Phone'', 
     ''Adoption Cell Phone'', ''Adoption Status'', ''Adoption or Disposition Date'']"
  by (simp add: m_sOldColumnHeaders_def Parse_def Parse_loop.simps ParseField_def COMMA_def QUOTE_def
      TrimColumn_def RemoveEquals_def is_blank_def)

lemma new_headers:
  "Parse m_sNewColumnHeaders =
    [''Dog Name'', ''Dog Number'', ''Micropchip number'', ''Dog Age'', ''Dog Sex'', 
     ''Dog Breed'', ''Dog Neuter'', ''Dog Status'', ''Dog Location'', 
     ''How Acquired'', ''Date Acquired'', ''Primary Contact Fname'', 
     ''Primary Contact Lname'', ''Surrender Fname'', ''Surrender Lname'', 
     ''Surrender Address'', ''Surrender City'', ''Surrender State'', 
     ''Surrender Zip Code'', ''Originating Area'', ''County'', ''Adoption Fname'', 
     ''Adoption Lname'', ''AC Fname'', ''AC Lname'', ''Adoption Address'', 
     ''Adoption City'', ''Adoption State'', ''Adoption Zip Code'', ''Adoption Area'', 
     ''Adoption Email'', ''Adoption Home Phone'', ''Adoption Work Phone'', 
     ''Adoption Cell Phone'', ''Adoption Status'', ''Adoption or Disposition Date'']"
  by (simp add: m_sNewColumnHeaders_def Parse_def Parse_loop.simps ParseField_def COMMA_def QUOTE_def
      TrimColumn_def RemoveEquals_def is_blank_def)

lemma match_reNumber: "regex_match s reNumber \<noteq> None \<longleftrightarrow> s \<noteq> [] \<and> list_all digit s"
  by (cases s) (auto simp: regex_match_None reNumber_def rx_rel.simps)

lemma old_columns:
  "column (headers False) ''Dog Number'' = 1" "column (headers False) ''Micropchip number'' = 2"
  "column (headers False) ''Dog Name'' = 0" "column (headers False) ''Dog Age'' = 3"
  "column (headers False) ''Dog Sex'' = 4" "column (headers False) ''Dog Neuter'' = 6"
  "column (headers False) ''Dog Status'' = 7" "column (headers False) ''Dog Location'' = 8"
  "column (headers False) ''How Acquired'' = 9" "column (headers False) ''Date Acquired'' = 10"
  "column (headers False) ''Primary Contact Fname'' = 11" "column (headers False) ''Primary Contact Lname'' = 12"
  "column (headers False) ''Surrender Fname'' = 13" "column (headers False) ''Surrender Lname'' = 14"
  "column (headers False) ''Surrender Address'' = 15" "column (headers False) ''Surrender City'' = 16"
  "column (headers False) ''Surrender State'' = 17" "column (headers False) ''Surrender Zip Code'' = 18"
  "column (headers False) ''Originating Area'' = 19" "column (headers False) ''Adoption Fname'' = 20"
  "column (headers False) ''Adoption Lname'' = 21" "column (headers False) ''AC Fname'' = 22"
  "column (headers False) ''AC Lname'' = 23" "column (headers False) ''Adoption Address'' = 24"
  "column (headers False) ''Adoption City'' = 25" "column (headers False) ''Adoption State'' = 26"
  "column (headers False) ''Adoption Zip Code'' = 27" "column (headers False) ''Adoption Area'' = 28"
  "column (headers False) ''Adoption Email'' = 29" "column (headers False) ''Adoption Home Phone'' = 30"
  "column (headers False) ''Adoption Work Phone'' = 31" "column (headers False) ''Adoption Cell Phone'' = 32"
  "column (headers False) ''Adoption Status'' = 33" "column (headers False) ''Adoption or Disposition Date'' = 34"
  by (simp_all add: headers_def old_headers column_def)

lemma new_columns:
  "column (headers True) ''Dog Number'' = 1" "column (headers True) ''Micropchip number'' = 2"
  "column (headers True) ''Dog Name'' = 0" "column (headers True) ''Dog Age'' = 3"
  "column (headers True) ''Dog Sex'' = 4" "column (headers True) ''Dog Neuter'' = 6"
  "column (headers True) ''Dog Status'' = 7" "column (headers True) ''Dog Location'' = 8"
  "column (headers True) ''How Acquired'' = 9" "column (headers True) ''Date Acquired'' = 10"
  "column (headers True) ''Primary Contact Fname'' = 11" "column (headers True) ''Primary Contact Lname'' = 12"
  "column (headers True) ''Surrender Fname'' = 13" "column (headers True) ''Surrender Lname'' = 14"
  "column (headers True) ''Surrender Address'' = 15" "column (headers True) ''Surrender City'' = 16"
  "column (headers True) ''Surrender State'' = 17" "column (headers True) ''Surrender Zip Code'' = 18"
  "column (headers True) ''Originating Area'' = 19" "column (headers True) ''Adoption Fname'' = 21"
  "column (headers True) ''Adoption Lname'' = 22" "column (headers True) ''AC Fname'' = 23"
  "column (headers True) ''AC Lname'' = 24" "column (headers True) ''Adoption Address'' = 25"
  "column (headers True) ''Adoption City'' = 26" "column (headers True) ''Adoption State'' = 27"
  "column (headers True) ''Adoption Zip Code'' = 28" "column (headers True) ''Adoption Area'' = 29"
  "column (headers True) ''Adoption Email'' = 30" "column (headers True) ''Adoption Home Phone'' = 31"
  "column (headers True) ''Adoption Work Phone'' = 32" "column (headers True) ''Adoption Cell Phone'' = 33"
  "column (headers True) ''Adoption Status'' = 34" "column (headers True) ''Adoption or Disposition Date'' = 35"
  by (simp_all add: headers_def new_headers column_def)

lemma layouts:
  "headers True = take 20 (headers False) @ [''County''] @ drop 20 (headers False)"
  "length (headers False) = TOTAL_OLD_COLUMNS" "length (headers True) = TOTAL_NEW_COLUMNS"
  by (simp_all add: headers_def old_headers new_headers TOTAL_OLD_COLUMNS_def TOTAL_NEW_COLUMNS_def)

lemma FromRow_cells:
  assumes len: "length row = (if fNew then TOTAL_NEW_COLUMNS else TOTAL_OLD_COLUMNS)"
    and num: "cell row fNew ''Dog Number'' \<noteq> []" "list_all digit (cell row fNew ''Dog Number'')"
      "1 \<le> decimal_value (cell row fNew ''Dog Number'')"
      "decimal_value (cell row fNew ''Dog Number'') \<le> MAXDOG"
  shows "\<exists>d. FromRow row fNew w = Inr (True, d, w)
      \<and> m_nNumber d = decimal_value (cell row fNew ''Dog Number'')
      \<and> m_sMicrochip d = (if stricmp_eq (cell row fNew ''Micropchip number'') ''none'' then []
                          else cell row fNew ''Micropchip number'') \<and>
      m_sName d = cell row fNew ''Dog Name'' \<and>
      m_sAge d = cell row fNew ''Dog Age'' \<and>
      m_sSex d = cell row fNew ''Dog Sex'' \<and>
      m_sNeuter d = cell row fNew ''Dog Neuter'' \<and>
      m_sStatus d = cell row fNew ''Dog Status'' \<and>
      m_sLocation d = cell row fNew ''Dog Location'' \<and>
      m_sHowAcquired d = cell row fNew ''How Acquired'' \<and>
      m_sDateAcquired d = cell row fNew ''Date Acquired'' \<and>
      m_sPrimaryContactFName d = cell row fNew ''Primary Contact Fname'' \<and>
      m_sPrimaryContactLName d = cell row fNew ''Primary Contact Lname'' \<and>
      m_sSurrenderFName d = cell row fNew ''Surrender Fname'' \<and>
      m_sSurrenderLName d = cell row fNew ''Surrender Lname'' \<and>
      m_sSurrenderAddress d = cell row fNew ''Surrender Address'' \<and>
      m_sSurrenderCity d = cell row fNew ''Surrender City'' \<and>
      m_sSurrenderState d = cell row fNew ''Surrender State'' \<and>
      m_sSurrenderZipCode d = cell row fNew ''Surrender Zip Code'' \<and>
      m_sOriginatingArea d = cell row fNew ''Originating Area'' \<and>
      m_sAdoptionFName d = cell row fNew ''Adoption Fname'' \<and>
      m_sAdoptionLName d = cell row fNew ''Adoption Lname'' \<and>
      m_sACFName d = cell row fNew ''AC Fname'' \<and>
      m_sACLName d = cell row fNew ''AC Lname'' \<and>
      m_sAdoptionAddress d = cell row fNew ''Adoption Address'' \<and>
      m_sAdoptionCity d = cell row fNew ''Adoption City'' \<and>
      m_sAdoptionState d = cell row fNew ''Adoption State'' \<and>
      m_sAdoptionZip d = cell row fNew ''Adoption Zip Code'' \<and>
      m_sAdoptionArea d = cell row fNew ''Adoption Area'' \<and>
      m_sAdoptioneMail d = cell row fNew ''Adoption Email'' \<and>
      m_sAdoptionHomePhone d = cell row fNew ''Adoption Home Phone'' \<and>
      m_sAdoptionWorkPhone d = cell row fNew ''Adoption Work Phone'' \<and>
      m_sAdoptionCellPhone d = cell row fNew ''Adoption Cell Phone'' \<and>
      m_sAdoptionStatus d = cell row fNew ''Adoption Status'' \<and>
      m_sDispositionDate d = cell row fNew ''Adoption or Disposition Date''"
proof -
  have c1: "cell row fNew ''Dog Number'' = row ! 1"
    by (cases fNew) (simp_all add: cell_def old_columns new_columns)
  have m: "regex_match (row ! 1) reNumber \<noteq> None"
    using num(1,2) match_reNumber [of "row ! 1"] unfolding c1 by blast
  have st: "stoi (row ! 1) = Some (decimal_value (row ! 1))"
    using num(4) by (simp add: stoi_def c1 MAXDOG_def)
  have r: "decimal_value (row ! 1) \<noteq> 0" "\<not> decimal_value (row ! 1) > MAXDOG"
    using num(3,4) by (simp_all add: c1)
  show ?thesis
  proof (cases fNew)
    case True
    show ?thesis
      using m st r len True
      by (simp add: FromRow_def FromRow_columns_def Initialize_def Let_def cell_def new_columns
          eval_nat_numeral)
  next
    case False
    show ?thesis
      using m st r len False
      by (simp add: FromRow_def FromRow_columns_def Initialize_def Let_def cell_def old_columns
          eval_nat_numeral)
  qed
qed

lemma same_columns_but_county:
  "FromRow_columns True = take 20 (FromRow_columns False) @ [Unused] @ drop 20 (FromRow_columns False)"
  "FromRow_columns False ! 5 = Unused" "FromRow_columns True ! 5 = Unused"
  by (simp_all add: FromRow_columns_def)

text \<open>
  Claim C9 says that the two layouts differ in the presence of a breed column, in the presence
  of a county column and in the order of the adopter-name and the area-contact-name columns.
  Both header rows have the breed column, \<open>FromRow\<close> steps over the sixth column in both
  layouts, both have the adopter names before the area-contact names, and the columns that
  \<open>FromRow\<close> reads in the new layout are those of the old one with the county inserted.
\<close>

theorem layouts_share_breed_and_order:
  "''Dog Breed'' \<in> set (headers False) \<and> ''Dog Breed'' \<in> set (headers True)
   \<and> FromRow_columns False ! 5 = Unused \<and> FromRow_columns True ! 5 = Unused
   \<and> column (headers False) ''Adoption Fname'' < column (headers False) ''AC Fname''
   \<and> column (headers True) ''Adoption Fname'' < column (headers True) ''AC Fname''
   \<and> FromRow_columns True
       = take 20 (FromRow_columns False) @ [Unused] @ drop 20 (FromRow_columns False)"
proof -
  have "''Dog Breed'' \<in> set (headers False)" "''Dog Breed'' \<in> set (headers True)"
    by (simp_all add: headers_def old_headers new_headers)
  then show ?thesis
    using same_columns_but_county by (simp add: old_columns new_columns)
qed

text \<open>
  Claim C9, amended.  The header row of the new layout is that of the old one with the County
  column inserted as its 21st column; this is the only difference.  For every row that has as
  many columns as the header row of its layout and whose dog number is a decimal number from 1
  to 99999, \<open>FromRow\<close> succeeds without a report, and every field of the record is the cell
  under the header of that field; the microchip is empty when that cell reads "none" in any
  case of letters.
\<close>

theorem FromRow_takes_cells_by_header:
  assumes "length row = (if fNew then TOTAL_NEW_COLUMNS else TOTAL_OLD_COLUMNS)"
    and "cell row fNew ''Dog Number'' \<noteq> []" and "list_all digit (cell row fNew ''Dog Number'')"
    and "1 \<le> decimal_value (cell row fNew ''Dog Number'')"
    and "decimal_value (cell row fNew ''Dog Number'') \<le> MAXDOG"
  shows "headers True = take 20 (headers False) @ [''County''] @ drop 20 (headers False)
    \<and> length (headers fNew) = length row
    \<and> (\<exists>d. FromRow row fNew w = Inr (True, d, w)
      \<and> m_nNumber d = decimal_value (cell row fNew ''Dog Number'')
      \<and> m_sMicrochip d = (if stricmp_eq (cell row fNew ''Micropchip number'') ''none'' then []
                          else cell row fNew ''Micropchip number'') \<and>
      m_sName d = cell row fNew ''Dog Name'' \<and>
      m_sAge d = cell row fNew ''Dog Age'' \<and>
      m_sSex d = cell row fNew ''Dog Sex'' \<and>
      m_sNeuter d = cell row fNew ''Dog Neuter'' \<and>
      m_sStatus d = cell row fNew ''Dog Status'' \<and>
      m_sLocation d = cell row fNew ''Dog Location'' \<and>
      m_sHowAcquired d = cell row fNew ''How Acquired'' \<and>
      m_sDateAcquired d = cell row fNew ''Date Acquired'' \<and>
      m_sPrimaryContactFName d = cell row fNew ''Primary Contact Fname'' \<and>
      m_sPrimaryContactLName d = cell row fNew ''Primary Contact Lname'' \<and>
      m_sSurrenderFName d = cell row fNew ''Surrender Fname'' \<and>
      m_sSurrenderLName d = cell row fNew ''Surrender Lname'' \<and>
      m_sSurrenderAddress d = cell row fNew ''Surrender Address'' \<and>
      m_sSurrenderCity d = cell row fNew ''Surrender City'' \<and>
      m_sSurrenderState d = cell row fNew ''Surrender State'' \<and>
      m_sSurrenderZipCode d = cell row fNew ''Surrender Zip Code'' \<and>
      m_sOriginatingArea d = cell row fNew ''Originating Area'' \<and>
      m_sAdoptionFName d = cell row fNew ''Adoption Fname'' \<and>
      m_sAdoptionLName d = cell row fNew ''Adoption Lname'' \<and>
      m_sACFName d = cell row fNew ''AC Fname'' \<and>
      m_sACLName d = cell row fNew ''AC Lname'' \<and>
      m_sAdoptionAddress d = cell row fNew ''Adoption Address'' \<and>
      m_sAdoptionCity d = cell row fNew ''Adoption City'' \<and>
      m_sAdoptionState d = cell row fNew ''Adoption State'' \<and>
      m_sAdoptionZip d = cell row fNew ''Adoption Zip Code'' \<and>
      m_sAdoptionArea d = cell row fNew ''Adoption Area'' \<and>
      m_sAdoptioneMail d = cell row fNew ''Adoption Email'' \<and>
      m_sAdoptionHomePhone d = cell row fNew ''Adoption Home Phone'' \<and>
      m_sAdoptionWorkPhone d = cell row fNew ''Adoption Work Phone'' \<and>
      m_sAdoptionCellPhone d = cell row fNew ''Adoption Cell Phone'' \<and>
      m_sAdoptionStatus d = cell row fNew ''Adoption Status'' \<and>
      m_sDispositionDate d = cell row fNew ''Adoption or Disposition Date'')"
proof -
  have "length (headers fNew) = length row"
    using assms(1) layouts(2,3) by (cases fNew) simp_all
  with layouts(1) FromRow_cells [OF assms, of w] show ?thesis by blast
qed

lemma named_row_new:
  "named_row True = [''Dog Name'', ''17'', ''Micropchip number'', ''Dog Age'', ''Dog Sex'', 
     ''Dog Breed'', ''Dog Neuter'', ''Dog Status'', ''Dog Location'', 
     ''How Acquired'', ''Date Acquired'', ''Primary Contact Fname'', 
     ''Primary Contact Lname'', ''Surrender Fname'', ''Surrender Lname'', 
     ''Surrender Address'', ''Surrender City'', ''Surrender State'', 
     ''Surrender Zip Code'', ''Originating Area'', ''County'', ''Adoption Fname'', 
     ''Adoption Lname'', ''AC Fname'', ''AC Lname'', ''Adoption Address'', 
     ''Adoption City'', ''Adoption State'', ''Adoption Zip Code'', ''Adoption Area'', 
     ''Adoption Email'', ''Adoption Home Phone'', ''Adoption Work Phone'', 
     ''Adoption Cell Phone'', ''Adoption Status'', ''Adoption or Disposition Date'']"
  by (simp add: named_row_def headers_def new_headers)

text \<open>C9 on the row of the new layout whose cells hold the names of their columns.\<close>

theorem FromRow_takes_cells_by_header_witness:
  "\<exists>d. FromRow (named_row True) True two_reports = Inr (True, d, two_reports)
     \<and> m_nNumber d = 17 \<and> m_sName d = ''Dog Name'' \<and> m_sNeuter d = ''Dog Neuter''
     \<and> m_sAdoptionFName d = ''Adoption Fname'' \<and> m_sACFName d = ''AC Fname''
     \<and> m_sDispositionDate d = ''Adoption or Disposition Date''"
proof -
  have c: "cell (named_row True) True ''Dog Number'' = ''17''"
    "cell (named_row True) True ''Dog Name'' = ''Dog Name''"
    "cell (named_row True) True ''Dog Neuter'' = ''Dog Neuter''"
    "cell (named_row True) True ''Adoption Fname'' = ''Adoption Fname''"
    "cell (named_row True) True ''AC Fname'' = ''AC Fname''"
    "cell (named_row True) True ''Adoption or Disposition Date'' = ''Adoption or Disposition Date''"
    by (simp_all add: cell_def new_columns named_row_new)
  have v: "decimal_value ''17'' = 17"
    by (simp add: decimal_value_def digit_val_def)
  have l: "length (named_row True) = (if True then TOTAL_NEW_COLUMNS else TOTAL_OLD_COLUMNS)"
    by (simp add: TOTAL_NEW_COLUMNS_def named_row_new)
  have h: "cell (named_row True) True ''Dog Number'' \<noteq> []"
    "list_all digit (cell (named_row True) True ''Dog Number'')"
    "1 \<le> decimal_value (cell (named_row True) True ''Dog Number'')"
    "decimal_value (cell (named_row True) True ''Dog Number'') \<le> MAXDOG"
    by (simp_all add: c v digit_def MAXDOG_def)
  from FromRow_takes_cells_by_header [OF l h, of two_reports]
  obtain d where "FromRow (named_row True) True two_reports = Inr (True, d, two_reports)"
    "m_nNumber d = decimal_value (cell (named_row True) True ''Dog Number'')"
    "m_sName d = cell (named_row True) True ''Dog Name''"
    "m_sNeuter d = cell (named_row True) True ''Dog Neuter''"
    "m_sAdoptionFName d = cell (named_row True) True ''Adoption Fname''"
    "m_sACFName d = cell (named_row True) True ''AC Fname''"
    "m_sDispositionDate d = cell (named_row True) True ''Adoption or Disposition Date''"
    by blast
  then show ?thesis by (simp add: c v)
qed

end
